theory Spec2Isabelle
  imports Complex_Main
begin

section \<open>The cache-flow animator of slides/slide-20-canvas.js\<close>

text \<open>
  The animator keeps one mutable \<open>state\<close> object and changes it from a frame callback
  and from a handful of event handlers. The embedding passes that object explicitly:
  every source function that mutates it becomes a function from the old record to the
  new one. A \<open>TypeError\<close> raised by reading a property of \<open>undefined\<close> is the
  \<open>Inl\<close> branch of the result. Drawing writes to the canvas only and is left out,
  except that \<open>drawStaticToBuffer\<close> can raise: it is modelled by the test that says
  whether it completes. Times are JavaScript numbers; they are modelled as reals, with
  the values \<open>Infinity\<close>, \<open>-Infinity\<close> and \<open>NaN\<close> added where the source can
  produce them.
\<close>

subsection \<open>JavaScript values\<close>

datatype error = TypeError

datatype jsnum = Num real | PosInfinity | NegInfinity | NaN

text \<open>\<open>a / b\<close> on finite numbers: a division by zero gives an infinity or \<open>NaN\<close>.\<close>

definition js_div :: "real \<Rightarrow> real \<Rightarrow> jsnum" where
  "js_div a b =
     (if b \<noteq> 0 then Num (a / b)
      else if 0 < a then PosInfinity
      else if a < 0 then NegInfinity
      else NaN)"

text \<open>\<open>Math.min(1, v)\<close>.\<close>

fun js_min1 :: "jsnum \<Rightarrow> jsnum" where
  "js_min1 (Num r) = Num (min 1 r)"
| "js_min1 PosInfinity = Num 1"
| "js_min1 NegInfinity = NegInfinity"
| "js_min1 NaN = NaN"

text \<open>\<open>a >= b\<close> for a finite \<open>a\<close>; every comparison with \<open>NaN\<close> is false.\<close>

fun js_ge :: "real \<Rightarrow> jsnum \<Rightarrow> bool" where
  "js_ge a (Num b) = (b \<le> a)"
| "js_ge a PosInfinity = False"
| "js_ge a NegInfinity = True"
| "js_ge a NaN = False"

text \<open>\<open>t >= 1\<close>, \<open>t <= 1\<close> and \<open>t >= 0\<close> for a computed progress \<open>t\<close>.\<close>

fun ge1 :: "jsnum \<Rightarrow> bool" where
  "ge1 (Num r) = (1 \<le> r)"
| "ge1 PosInfinity = True"
| "ge1 NegInfinity = False"
| "ge1 NaN = False"

fun le1 :: "jsnum \<Rightarrow> bool" where
  "le1 (Num r) = (r \<le> 1)"
| "le1 PosInfinity = False"
| "le1 NegInfinity = True"
| "le1 NaN = False"

fun ge0 :: "jsnum \<Rightarrow> bool" where
  "ge0 (Num r) = (0 \<le> r)"
| "ge0 PosInfinity = True"
| "ge0 NegInfinity = False"
| "ge0 NaN = False"

text \<open>\<open>Math.round\<close> rounds a half towards plus infinity.\<close>

definition js_round :: "real \<Rightarrow> int" where
  "js_round r = \<lfloor>r + 1 / 2\<rfloor>"

text \<open>
  \<open>xs[i]\<close>: \<open>undefined\<close> (here \<open>None\<close>) outside the array, also for a negative
  index.
\<close>

definition nth_opt :: "'a list \<Rightarrow> nat \<Rightarrow> 'a option" where
  "nth_opt xs i = (if i < length xs then Some (xs ! i) else None)"

definition js_index :: "'a list \<Rightarrow> int \<Rightarrow> 'a option" where
  "js_index xs i = (if 0 \<le> i then nth_opt xs (nat i) else None)"

text \<open>A request id of the browser (animation frame or timer): only its presence is read.\<close>

datatype handle = Handle

subsection \<open>Configuration\<close>

record config =
  usersCount :: nat
  edgesCount :: nat
  userEdgeMap :: "int list option"
  sequential :: bool
  userStaggerMs :: real
  requestTravelMs :: real
  fetchFromOriginMs :: real
  cacheStoreMs :: real
  hitTravelMs :: real
  gapMs :: real

definition DEFAULT_HEIGHT :: int where
  "DEFAULT_HEIGHT = 420"

definition ANIM_CONFIG :: config where
  "ANIM_CONFIG =
     \<lparr> usersCount = 4, edgesCount = 3, userEdgeMap = Some [0, 1, 2, 2],
       sequential = True, userStaggerMs = 350, requestTravelMs = 1400,
       fetchFromOriginMs = 1400, cacheStoreMs = 900, hitTravelMs = 700, gapMs = 700 \<rparr>"

subsection \<open>The state object\<close>

datatype reqState =
    Pending
  | Traveling_to_edge
  | Traveling_to_regional
  | Edge_hit_return
  | Fetching_origin
  | Regional_hit_return
  | Storing_regional
  | Returning_to_edge_from_regional
  | Storing_edge
  | Returning_to_user
  | Done

datatype invState = Traveling | Pulsing | Inv_done

datatype invType = Edge | Regional

record node =
  node_x :: real
  node_y :: real
  node_w :: real
  node_h :: real

record user = node +
  assignedEdgeIndex :: int

record cacheNode = node +
  node_index :: nat
  cached :: bool

record request =
  userIndex :: nat
  edgeIndex :: int
  regionalIndex :: "nat option"
  startAt :: jsnum
  req_state :: reqState
  t0 :: real

record invalidation =
  inv_type :: invType
  targetIndex :: nat
  startTime :: real
  duration :: real
  inv_state :: invState

record layout =
  users :: "user list"
  edges :: "node list"
  regionals :: "node list"
  edgesToRegional :: "nat list"

record anim =
  rafId :: "handle option"
  isPlaying :: bool
  isFinished :: bool
  destroyed :: bool
  runIndex :: nat
  replayTimer :: "handle option"
  width :: int
  height :: int
  layout :: layout
  edgesState :: "cacheNode list"
  regionalState :: "cacheNode list"
  requests :: "request list"
  invalidations :: "invalidation list"

text \<open>The state literal of \<open>createCloudfrontAnimation\<close>.\<close>

definition initialState :: anim where
  "initialState =
     \<lparr> rafId = None, isPlaying = True, isFinished = False, destroyed = False,
       runIndex = 0, replayTimer = None, width = 0, height = DEFAULT_HEIGHT,
       layout = \<lparr> users = [], edges = [], regionals = [], edgesToRegional = [] \<rparr>,
       edgesState = [], regionalState = [], requests = [], invalidations = [] \<rparr>"

subsection \<open>Layout\<close>

text \<open>
  The edge a user is assigned to (the \<open>forEach\<close> at the end of
  \<open>calculateLayoutPositions\<close>): the configured value capped by \<open>Math.min\<close> at the
  last edge, or an even spread when the map has no entry for the user.
\<close>

definition spreadEdgeIndex :: "config \<Rightarrow> nat \<Rightarrow> int" where
  "spreadEdgeIndex cfg i =
     js_round (real i * (real (edgesCount cfg) - 1) / max 1 (real (usersCount cfg) - 1))"

definition assignEdgeIndex :: "config \<Rightarrow> nat \<Rightarrow> int" where
  "assignEdgeIndex cfg i =
     (case userEdgeMap cfg of
        Some m \<Rightarrow>
          (if i < length m then min (int (edgesCount cfg) - 1) (m ! i)
           else spreadEdgeIndex cfg i)
      | None \<Rightarrow> spreadEdgeIndex cfg i)"

definition calculateLayoutPositions :: "config \<Rightarrow> anim \<Rightarrow> anim" where
  "calculateLayoutPositions cfg s =
     (let regionalCount = (2::nat);
          usersX = js_round (real_of_int (width s) * (8 / 100));
          edgesX = js_round (real_of_int (width s) * (38 / 100));
          regionalsX = js_round (real_of_int (width s) * (65 / 100));
          verticalMargin = (40::real);
          usableHeight = real_of_int (height s) - verticalMargin * 2;
          us = map (\<lambda>i. \<lparr> node_x = real_of_int usersX,
                           node_y = verticalMargin
                             + (usableHeight / (real (usersCount cfg) + 1)) * (real i + 1),
                           node_w = 56, node_h = 56,
                           assignedEdgeIndex = assignEdgeIndex cfg i \<rparr>)
                 [0 ..< usersCount cfg];
          es = map (\<lambda>i. \<lparr> node_x = real_of_int edgesX,
                           node_y = verticalMargin
                             + (usableHeight / (real (edgesCount cfg) + 1)) * (real i + 1),
                           node_w = 140, node_h = 60 \<rparr>)
                 [0 ..< edgesCount cfg];
          rs = map (\<lambda>i. \<lparr> node_x = real_of_int regionalsX,
                           node_y = verticalMargin
                             + (usableHeight / (real regionalCount + 1)) * (real i + 1),
                           node_w = 160, node_h = 56 \<rparr>)
                 [0 ..< regionalCount];
          e2r = map (\<lambda>i. i * length rs div length es) [0 ..< length es]
      in s\<lparr> layout := \<lparr> users = us, edges = es, regionals = rs, edgesToRegional = e2r \<rparr> \<rparr>)"

text \<open>
  \<open>drawStaticToBuffer\<close> reads \<open>e.x\<close> of the edge of every user and \<open>r.x\<close> of the
  regional cache of every edge: it completes exactly when all of them exist.
\<close>

definition drawStaticToBuffer :: "anim \<Rightarrow> bool" where
  "drawStaticToBuffer s =
     (list_all (\<lambda>u. js_index (edgesState s) (assignedEdgeIndex u) \<noteq> None) (users (layout s))
      \<and> list_all
          (\<lambda>ei. case nth_opt (edgesToRegional (layout s)) ei of
                   None \<Rightarrow> False
                 | Some ri \<Rightarrow> nth_opt (regionalState s) ri \<noteq> None)
          [0 ..< length (edgesState s)])"

text \<open>\<open>state.edgesState[i]?.cached || false\<close>.\<close>

definition cachedAt :: "cacheNode list \<Rightarrow> nat \<Rightarrow> bool" where
  "cachedAt ns i = (case nth_opt ns i of None \<Rightarrow> False | Some n \<Rightarrow> cached n)"

definition toCacheNode :: "cacheNode list \<Rightarrow> node list \<Rightarrow> nat \<Rightarrow> cacheNode" where
  "toCacheNode old ns i =
     \<lparr> node_x = node_x (ns ! i), node_y = node_y (ns ! i),
       node_w = node_w (ns ! i), node_h = node_h (ns ! i),
       node_index = i, cached = cachedAt old i \<rparr>"

text \<open>
  \<open>sizeCanvas\<close>, given the bounding rectangle of the canvas. \<open>rect.height || 420\<close>
  replaces a zero height.
\<close>

definition sizeCanvas :: "config \<Rightarrow> real \<Rightarrow> real \<Rightarrow> anim \<Rightarrow> error + anim" where
  "sizeCanvas cfg rectWidth rectHeight s =
     (let s1 = s\<lparr> width := max 600 \<lfloor>rectWidth\<rfloor>,
                  height := max DEFAULT_HEIGHT
                    (if rectHeight = 0 then DEFAULT_HEIGHT else \<lfloor>rectHeight\<rfloor>) \<rparr>;
          s2 = calculateLayoutPositions cfg s1;
          s3 = s2\<lparr> edgesState :=
                      map (toCacheNode (edgesState s2) (edges (layout s2)))
                        [0 ..< length (edges (layout s2))],
                    regionalState :=
                      map (toCacheNode (regionalState s2) (regionals (layout s2)))
                        [0 ..< length (regionals (layout s2))] \<rparr>
      in if drawStaticToBuffer s3 then Inr s3 else Inl TypeError)"

subsection \<open>Seeding a run\<close>

text \<open>A callback run over the elements of an array in order; a raise ends the loop.\<close>

fun mapE :: "('a \<Rightarrow> error + 'b) \<Rightarrow> 'a list \<Rightarrow> error + 'b list" where
  "mapE f [] = Inr []"
| "mapE f (a # as) =
     (case f a of
        Inl e \<Rightarrow> Inl e
      | Inr b \<Rightarrow> (case mapE f as of Inl e \<Rightarrow> Inl e | Inr bs \<Rightarrow> Inr (b # bs)))"

fun forEach :: "(nat \<Rightarrow> 'a \<Rightarrow> error + 'a) \<Rightarrow> nat list \<Rightarrow> 'a \<Rightarrow> error + 'a" where
  "forEach f [] a = Inr a"
| "forEach f (i # is) a =
     (case f i a of Inl e \<Rightarrow> Inl e | Inr a' \<Rightarrow> forEach f is a')"

text \<open>
  The callback of \<open>Array.from\<close> in \<open>setupRun\<close>: reading \<open>user.assignedEdgeIndex\<close>
  raises when the layout has no user \<open>i\<close>.
\<close>

definition newRequest :: "config \<Rightarrow> real \<Rightarrow> anim \<Rightarrow> nat \<Rightarrow> error + request" where
  "newRequest cfg now s i =
     (case nth_opt (users (layout s)) i of
        None \<Rightarrow> Inl TypeError
      | Some u \<Rightarrow>
          Inr \<lparr> userIndex = i,
                edgeIndex = assignedEdgeIndex u,
                regionalIndex = js_index (edgesToRegional (layout s)) (assignedEdgeIndex u),
                startAt =
                  (if sequential cfg then (if i = 0 then Num now else PosInfinity)
                   else Num (now + real i * userStaggerMs cfg)),
                req_state = Pending,
                t0 = 0 \<rparr>)"

text \<open>\<open>setupRun\<close>; \<open>clock\<close> is the value \<open>performance.now()\<close> returns.\<close>

definition setupRun :: "config \<Rightarrow> real \<Rightarrow> anim \<Rightarrow> error + anim" where
  "setupRun cfg clock s =
     (let s1 = s\<lparr> replayTimer := None, isFinished := False \<rparr> in
      case mapE (newRequest cfg clock s1) [0 ..< usersCount cfg] of
        Inl e \<Rightarrow> Inl e
      | Inr rs \<Rightarrow>
          (let s2 = s1\<lparr> requests := rs, runIndex := runIndex s1 + 1 \<rparr>
           in if drawStaticToBuffer s2 then Inr s2 else Inl TypeError))"

subsection \<open>Advancing requests\<close>

fun getDurationForState :: "config \<Rightarrow> reqState \<Rightarrow> real" where
  "getDurationForState cfg Traveling_to_edge = requestTravelMs cfg"
| "getDurationForState cfg Traveling_to_regional = requestTravelMs cfg"
| "getDurationForState cfg Fetching_origin = fetchFromOriginMs cfg"
| "getDurationForState cfg Storing_regional = cacheStoreMs cfg"
| "getDurationForState cfg Storing_edge = cacheStoreMs cfg"
| "getDurationForState cfg Regional_hit_return = hitTravelMs cfg"
| "getDurationForState cfg Returning_to_edge_from_regional = hitTravelMs cfg"
| "getDurationForState cfg Returning_to_user = hitTravelMs cfg"
| "getDurationForState cfg Edge_hit_return = hitTravelMs cfg"
| "getDurationForState cfg Pending = 1000"
| "getDurationForState cfg Done = 1000"

text \<open>\<open>Math.min(1, (now - since) / dur)\<close>, the normalized progress of both loops.\<close>

definition progress :: "real \<Rightarrow> real \<Rightarrow> real \<Rightarrow> jsnum" where
  "progress now since dur = js_min1 (js_div (now - since) dur)"

definition nextState :: "real \<Rightarrow> reqState \<Rightarrow> request \<Rightarrow> request" where
  "nextState now newState req = req\<lparr> req_state := newState, t0 := now \<rparr>"

text \<open>\<open>state.requests[state.requests.indexOf(req) - 1]?.state === 'done'\<close>, for the
  request at position \<open>i\<close> (every request object stands once in the array, so
  \<open>indexOf\<close> is its position).\<close>

definition predecessorDone :: "request list \<Rightarrow> nat \<Rightarrow> bool" where
  "predecessorDone rs i =
     (case (if i = 0 then None else nth_opt rs (i - 1)) of
        None \<Rightarrow> False
      | Some p \<Rightarrow> req_state p = Done)"

text \<open>
  The \<open>switch\<close> of \<open>processRequests\<close> for a request that is neither pending nor
  done. \<open>ei\<close> and \<open>ri\<close> are the positions of its edge and regional cache, whose
  \<open>cached\<close> flags the two storing cases set in place.
\<close>

definition switchState ::
  "config \<Rightarrow> real \<Rightarrow> nat \<Rightarrow> nat \<Rightarrow> request \<Rightarrow> anim \<Rightarrow> error + (request \<times> anim)" where
  "switchState cfg now ei ri req s =
     (let t = progress now (t0 req) (getDurationForState cfg (req_state req));
          edge = edgesState s ! ei;
          regional = regionalState s ! ri
      in case req_state req of
           Traveling_to_edge \<Rightarrow>
             (if ge1 t
              then Inr (nextState now
                          (if cached edge then Edge_hit_return else Traveling_to_regional) req, s)
              else Inr (req, s))
         | Traveling_to_regional \<Rightarrow>
             (if ge1 t
              then Inr (nextState now
                          (if cached regional then Regional_hit_return else Fetching_origin) req, s)
              else Inr (req, s))
         | Fetching_origin \<Rightarrow>
             (if ge1 t then Inr (nextState now Storing_regional req, s) else Inr (req, s))
         | Storing_regional \<Rightarrow>
             (if ge1 t
              then (let s1 = s\<lparr> regionalState :=
                                  (regionalState s)[ri := regional\<lparr> cached := True \<rparr>] \<rparr>
                    in if drawStaticToBuffer s1
                       then Inr (nextState now Returning_to_edge_from_regional req, s1)
                       else Inl TypeError)
              else Inr (req, s))
         | Storing_edge \<Rightarrow>
             (if ge1 t
              then (let s1 = s\<lparr> edgesState := (edgesState s)[ei := edge\<lparr> cached := True \<rparr>] \<rparr>
                    in if drawStaticToBuffer s1
                       then Inr (nextState now Returning_to_user req, s1)
                       else Inl TypeError)
              else Inr (req, s))
         | Regional_hit_return \<Rightarrow>
             (if ge1 t then Inr (nextState now Storing_edge req, s) else Inr (req, s))
         | Returning_to_edge_from_regional \<Rightarrow>
             (if ge1 t then Inr (nextState now Storing_edge req, s) else Inr (req, s))
         | Edge_hit_return \<Rightarrow>
             (if ge1 t then Inr (req\<lparr> req_state := Done \<rparr>, s) else Inr (req, s))
         | Returning_to_user \<Rightarrow>
             (if ge1 t then Inr (req\<lparr> req_state := Done \<rparr>, s) else Inr (req, s))
         | Pending \<Rightarrow> Inr (req, s)
         | Done \<Rightarrow> Inr (req, s))"

text \<open>
  The guard \<open>!user || !edge || !regional\<close> of the callback, negated: the user, the
  edge and the regional cache of the request all exist.
\<close>

definition hasNodes :: "anim \<Rightarrow> request \<Rightarrow> bool" where
  "hasNodes s req \<longleftrightarrow>
     nth_opt (users (layout s)) (userIndex req) \<noteq> None
     \<and> js_index (edgesState s) (edgeIndex req) \<noteq> None
     \<and> (case regionalIndex req of
          None \<Rightarrow> False
        | Some ri \<Rightarrow> nth_opt (regionalState s) ri \<noteq> None)"

text \<open>
  The two statements before the \<open>switch\<close>: in sequential mode a request waiting
  with \<open>startAt === Infinity\<close> gets the frame time once its predecessor is done, and a
  pending request whose start time has come starts travelling.
\<close>

definition wakeRequest :: "config \<Rightarrow> real \<Rightarrow> request list \<Rightarrow> nat \<Rightarrow> request \<Rightarrow> request" where
  "wakeRequest cfg now rs i req =
     (let req1 =
            (if sequential cfg \<and> startAt req = PosInfinity \<and> predecessorDone rs i
             then req\<lparr> startAt := Num now \<rparr> else req)
      in if req_state req1 = Pending \<and> js_ge now (startAt req1)
         then req1\<lparr> req_state := Traveling_to_edge, t0 := now \<rparr> else req1)"

text \<open>
  The callback of \<open>state.requests.forEach\<close> for the request at position \<open>i\<close>; the
  second component counts the active requests.
\<close>

definition processRequest ::
  "config \<Rightarrow> real \<Rightarrow> nat \<Rightarrow> anim \<times> nat \<Rightarrow> error + (anim \<times> nat)" where
  "processRequest cfg now i sa =
     (let s = fst sa; active = snd sa; req = requests s ! i in
      if \<not> hasNodes s req \<or> req_state req = Done then Inr sa
      else
        (let req2 = wakeRequest cfg now (requests s) i req
         in if req_state req2 = Pending
            then Inr (s\<lparr> requests := (requests s)[i := req2] \<rparr>, active)
            else
              (case switchState cfg now (nat (edgeIndex req)) (the (regionalIndex req)) req2 s of
                 Inl e \<Rightarrow> Inl e
               | Inr (req3, s1) \<Rightarrow>
                   Inr (s1\<lparr> requests := (requests s1)[i := req3] \<rparr>, active + 1))))"

definition processRequests :: "config \<Rightarrow> real \<Rightarrow> anim \<Rightarrow> error + (anim \<times> nat)" where
  "processRequests cfg now s =
     forEach (processRequest cfg now) [0 ..< length (requests s)] (s, 0)"

subsection \<open>Advancing invalidations\<close>

definition processInvalidation ::
  "config \<Rightarrow> real \<Rightarrow> nat \<Rightarrow> anim \<times> nat \<Rightarrow> error + (anim \<times> nat)" where
  "processInvalidation cfg now i sa =
     (let s = fst sa; active = snd sa; inv = invalidations s ! i in
      if inv_state inv = Inv_done then Inr sa
      else
        (let t = progress now (startTime inv) (duration inv);
             target =
               (if inv_type inv = Edge then nth_opt (edgesState s) (targetIndex inv)
                else nth_opt (regionalState s) (targetIndex inv))
         in case target of
              None \<Rightarrow>
                Inr (s\<lparr> invalidations :=
                          (invalidations s)[i := inv\<lparr> inv_state := Inv_done \<rparr>] \<rparr>, active + 1)
            | Some targetNode \<Rightarrow>
                (case inv_state inv of
                   Traveling \<Rightarrow>
                     (if ge1 t
                      then Inr (s\<lparr> invalidations :=
                                     (invalidations s)
                                       [i := inv\<lparr> inv_state := Pulsing, startTime := now,
                                                 duration := cacheStoreMs cfg \<rparr>] \<rparr>,
                                active + 1)
                      else Inr (s, active + 1))
                 | Pulsing \<Rightarrow>
                     (if ge1 t
                      then
                        (let s1 =
                               (if inv_type inv = Edge
                                then s\<lparr> edgesState :=
                                         (edgesState s)
                                           [targetIndex inv := targetNode\<lparr> cached := False \<rparr>] \<rparr>
                                else s\<lparr> regionalState :=
                                         (regionalState s)
                                           [targetIndex inv := targetNode\<lparr> cached := False \<rparr>] \<rparr>)
                         in if drawStaticToBuffer s1
                            then Inr (s1\<lparr> invalidations :=
                                           (invalidations s1)
                                             [i := inv\<lparr> inv_state := Inv_done \<rparr>] \<rparr>,
                                      active + 1)
                            else Inl TypeError)
                      else Inr (s, active + 1))
                 | Inv_done \<Rightarrow> Inr (s, active + 1))))"

definition processInvalidations :: "config \<Rightarrow> real \<Rightarrow> anim \<Rightarrow> error + (anim \<times> nat)" where
  "processInvalidations cfg now s =
     (case forEach (processInvalidation cfg now) [0 ..< length (invalidations s)] (s, 0) of
        Inl e \<Rightarrow> Inl e
      | Inr (s1, active) \<Rightarrow>
          Inr (s1\<lparr> invalidations :=
                    filter (\<lambda>inv. inv_state inv \<noteq> Inv_done) (invalidations s1) \<rparr>, active))"

subsection \<open>Loop control\<close>

definition pauseLoop :: "anim \<Rightarrow> anim" where
  "pauseLoop s =
     (if rafId s = None then s else s\<lparr> isPlaying := False, rafId := None \<rparr>)"

text \<open>
  \<open>startLoop\<close> and \<open>restart\<close> call each other: a finished animator restarts, and
  \<open>restart\<close> starts the loop of the run it has seeded, which is not finished.
\<close>

function startLoop :: "config \<Rightarrow> real \<Rightarrow> anim \<Rightarrow> error + anim"
  and restart :: "config \<Rightarrow> real \<Rightarrow> anim \<Rightarrow> error + anim" where
  "startLoop cfg clock s =
     (if rafId s \<noteq> None \<or> destroyed s then Inr s
      else if isFinished s then restart cfg clock s
      else Inr (s\<lparr> isPlaying := True, rafId := Some Handle \<rparr>))"
| "restart cfg clock s =
     (case setupRun cfg clock (s\<lparr> runIndex := 0, isFinished := False, replayTimer := None \<rparr>) of
        Inl e \<Rightarrow> Inl e
      | Inr s1 \<Rightarrow> startLoop cfg clock s1)"
  by pat_completeness auto
termination
proof (relation "measure (\<lambda>a. case a of
                    Inl (cfg, clock, s) \<Rightarrow> (if isFinished s then 2 else 0)
                  | Inr (cfg, clock, s) \<Rightarrow> 1)")
  show "wf (measure (\<lambda>a. case a of
              Inl (cfg, clock, s) \<Rightarrow> (if isFinished s then 2 else 0)
            | Inr (cfg, clock, s) \<Rightarrow> (1::nat)))"
    by simp
next
  fix cfg :: config and clock :: real and s :: anim
  assume "\<not> (rafId s \<noteq> None \<or> destroyed s)" and "isFinished s"
  then show "(Inr (cfg, clock, s), Inl (cfg, clock, s))
      \<in> measure (\<lambda>a. case a of
            Inl (cfg, clock, s) \<Rightarrow> (if isFinished s then 2 else 0)
          | Inr (cfg, clock, s) \<Rightarrow> (1::nat))"
    by simp
next
  fix cfg :: config and clock :: real and s s1 :: anim
  assume "setupRun cfg clock (s\<lparr> runIndex := 0, isFinished := False, replayTimer := None \<rparr>)
            = Inr s1"
  then have "\<not> isFinished s1"
    by (auto simp: setupRun_def Let_def split: sum.splits if_splits)
  then show "(Inl (cfg, clock, s1), Inr (cfg, clock, s))
      \<in> measure (\<lambda>a. case a of
            Inl (cfg, clock, s) \<Rightarrow> (if isFinished s then 2 else 0)
          | Inr (cfg, clock, s) \<Rightarrow> (1::nat))"
    by simp
qed

subsection \<open>The frame callback\<close>

text \<open>
  The end of \<open>renderFrame\<close>, from \<open>totalActiveAnimations\<close> on: the next frame is
  requested while something is active (its id is stored in \<open>rafId\<close>); otherwise an
  animator that is not yet finished becomes finished, may set the replay timer (whose
  callback is \<open>replayCallback\<close>), and pauses.
\<close>

definition endFrame :: "nat \<Rightarrow> anim \<Rightarrow> anim" where
  "endFrame totalActiveAnimations s =
     (if 0 < totalActiveAnimations then s\<lparr> rafId := Some Handle \<rparr>
      else if \<not> isFinished s
      then
        (let s1 = s\<lparr> isFinished := True \<rparr>;
             cachesExist =
               (list_ex cached (edgesState s1) \<or> list_ex cached (regionalState s1));
             s2 = (if runIndex s1 = 1 \<and> replayTimer s1 = None \<and> cachesExist
                      \<and> 0 < length (requests s1)
                   then s1\<lparr> replayTimer := Some Handle \<rparr> else s1)
         in pauseLoop s2)
      else s)"

text \<open>
  \<open>renderFrame(now)\<close>; \<open>clock\<close> is what \<open>performance.now()\<close> returns inside
  \<open>setupRun\<close>.
\<close>

definition renderFrame :: "config \<Rightarrow> real \<Rightarrow> real \<Rightarrow> anim \<Rightarrow> error + anim" where
  "renderFrame cfg now clock s =
     (case (if requests s = [] \<and> \<not> isFinished s \<and> invalidations s = []
            then setupRun cfg clock s else Inr s) of
        Inl e \<Rightarrow> Inl e
      | Inr s1 \<Rightarrow>
      (case processRequests cfg now s1 of
        Inl e \<Rightarrow> Inl e
      | Inr (s2, activeRequestCount) \<Rightarrow>
      (case processInvalidations cfg now s2 of
        Inl e \<Rightarrow> Inl e
      | Inr (s3, activeInvalidationCount) \<Rightarrow>
          Inr (endFrame (activeRequestCount + activeInvalidationCount) s3))))"

definition replayCallback :: "config \<Rightarrow> real \<Rightarrow> anim \<Rightarrow> error + anim" where
  "replayCallback cfg clock s =
     (case setupRun cfg clock s of Inl e \<Rightarrow> Inl e | Inr s1 \<Rightarrow> startLoop cfg clock s1)"

subsection \<open>Controls\<close>

text \<open>\<open>clearCache\<close>: \<open>now\<close> is the clock reading handed to \<open>renderFrame\<close>.\<close>

definition clearCache :: "config \<Rightarrow> real \<Rightarrow> real \<Rightarrow> anim \<Rightarrow> error + anim" where
  "clearCache cfg now clock s =
     (let s1 = s\<lparr> edgesState := map (\<lambda>e. e\<lparr> cached := False \<rparr>) (edgesState s),
                  regionalState := map (\<lambda>r. r\<lparr> cached := False \<rparr>) (regionalState s),
                  replayTimer := None,
                  isFinished := True \<rparr>
      in if drawStaticToBuffer s1 then renderFrame cfg now clock s1 else Inl TypeError)"

definition onPlayPauseClick :: "config \<Rightarrow> real \<Rightarrow> anim \<Rightarrow> error + anim" where
  "onPlayPauseClick cfg clock s =
     (if isPlaying s then Inr (pauseLoop s) else startLoop cfg clock s)"

definition onClearCacheClick :: "config \<Rightarrow> real \<Rightarrow> real \<Rightarrow> anim \<Rightarrow> error + anim" where
  "onClearCacheClick cfg now clock s =
     (case clearCache cfg now clock s of
        Inl e \<Rightarrow> Inl e
      | Inr s1 \<Rightarrow> restart cfg clock s1)"

text \<open>The events \<open>invalidateAllCaches\<close> pushes for one tier, in index order.\<close>

definition invalidationsFor ::
  "invType \<Rightarrow> real \<Rightarrow> real \<Rightarrow> cacheNode list \<Rightarrow> invalidation list" where
  "invalidationsFor ty now dur ns =
     map (\<lambda>i. \<lparr> inv_type = ty, targetIndex = i, startTime = now, duration = dur,
                inv_state = Traveling \<rparr>)
       (filter (\<lambda>i. cached (ns ! i)) [0 ..< length ns])"

definition invalidateAllCaches :: "config \<Rightarrow> real \<Rightarrow> anim \<Rightarrow> error + anim" where
  "invalidateAllCaches cfg now s =
     (let invalidationTravelTime = (800::real);
          s1 = s\<lparr> invalidations :=
                    invalidations s
                    @ invalidationsFor Regional now invalidationTravelTime (regionalState s)
                    @ invalidationsFor Edge now (invalidationTravelTime + 400) (edgesState s) \<rparr>
      in if \<not> isPlaying s1 then startLoop cfg now (s1\<lparr> isFinished := False \<rparr>) else Inr s1)"

text \<open>
  The hit test of \<open>onCanvasClick\<close>: the click lies within the radius of the user
  node; \<open>clickX\<close> and \<open>clickY\<close> are relative to the canvas.
\<close>

definition insideUser :: "user \<Rightarrow> real \<Rightarrow> real \<Rightarrow> bool" where
  "insideUser usr clickX clickY =
     (let radius = min (node_w usr) (node_h usr) / 2;
          dx = clickX - node_x usr;
          dy = clickY - node_y usr
      in dx * dx + dy * dy \<le> radius * radius)"

text \<open>
  The callback of \<open>state.layout.users.forEach\<close> in \<open>onCanvasClick\<close>, for the user
  at position \<open>index\<close>.
\<close>

definition clickUser ::
  "config \<Rightarrow> real \<Rightarrow> real \<Rightarrow> real \<Rightarrow> nat \<Rightarrow> anim \<Rightarrow> error + anim" where
  "clickUser cfg clickX clickY clock index s =
     (let usr = users (layout s) ! index
      in if insideUser usr clickX clickY
         then
           (if list_ex (\<lambda>req. userIndex req = index \<and> req_state req \<noteq> Done) (requests s)
            then Inr s
            else
              (let s1 = s\<lparr> requests :=
                            requests s
                            @ [\<lparr> userIndex = index,
                                 edgeIndex = assignedEdgeIndex usr,
                                 regionalIndex =
                                   js_index (edgesToRegional (layout s)) (assignedEdgeIndex usr),
                                 startAt = Num clock,
                                 req_state = Pending,
                                 t0 = 0 \<rparr>] \<rparr>
               in if \<not> isPlaying s1 then startLoop cfg clock (s1\<lparr> isFinished := False \<rparr>)
                  else Inr s1))
         else Inr s)"

definition onCanvasClick :: "config \<Rightarrow> real \<Rightarrow> real \<Rightarrow> real \<Rightarrow> anim \<Rightarrow> error + anim" where
  "onCanvasClick cfg clickX clickY clock s =
     (if destroyed s then Inr s
      else forEach (clickUser cfg clickX clickY clock) [0 ..< length (users (layout s))] s)"

text \<open>The callback of the resize timer.\<close>

definition onResize :: "config \<Rightarrow> real \<Rightarrow> real \<Rightarrow> real \<Rightarrow> real \<Rightarrow> anim \<Rightarrow> error + anim" where
  "onResize cfg rectWidth rectHeight now clock s =
     (case sizeCanvas cfg rectWidth rectHeight s of
        Inl e \<Rightarrow> Inl e
      | Inr s1 \<Rightarrow> if \<not> isPlaying s1 then renderFrame cfg now clock s1 else Inr s1)"

definition start :: "config \<Rightarrow> real \<Rightarrow> real \<Rightarrow> real \<Rightarrow> anim \<Rightarrow> error + anim" where
  "start cfg rectWidth rectHeight clock s =
     (case sizeCanvas cfg rectWidth rectHeight s of
        Inl e \<Rightarrow> Inl e
      | Inr s1 \<Rightarrow>
          (case setupRun cfg clock s1 of
             Inl e \<Rightarrow> Inl e
           | Inr s2 \<Rightarrow> startLoop cfg clock s2))"

definition destroy :: "anim \<Rightarrow> anim" where
  "destroy s = pauseLoop (s\<lparr> destroyed := True \<rparr>)"

subsection \<open>Everything that can happen to an animator\<close>

text \<open>
  The entry points of the returned object, the listeners and the two timer callbacks, with
  the values the browser hands them. A run is a list of them applied in order from the
  state literal; a raise ends it.
\<close>

datatype event =
    Start real real real
  | Frame real real
  | Play real
  | Pause
  | Restart real
  | ClearCache real real
  | Invalidate real
  | Destroy
  | CanvasClick real real real
  | PlayPauseClick real
  | ClearCacheClick real real
  | Resize real real real real
  | ReplayTimer real

fun step :: "config \<Rightarrow> event \<Rightarrow> anim \<Rightarrow> error + anim" where
  "step cfg (Start rectWidth rectHeight clock) s = start cfg rectWidth rectHeight clock s"
| "step cfg (Frame now clock) s = renderFrame cfg now clock s"
| "step cfg (Play clock) s = startLoop cfg clock s"
| "step cfg Pause s = Inr (pauseLoop s)"
| "step cfg (Restart clock) s = restart cfg clock s"
| "step cfg (ClearCache now clock) s = clearCache cfg now clock s"
| "step cfg (Invalidate now) s = invalidateAllCaches cfg now s"
| "step cfg Destroy s = Inr (destroy s)"
| "step cfg (CanvasClick clickX clickY clock) s = onCanvasClick cfg clickX clickY clock s"
| "step cfg (PlayPauseClick clock) s = onPlayPauseClick cfg clock s"
| "step cfg (ClearCacheClick now clock) s = onClearCacheClick cfg now clock s"
| "step cfg (Resize rectWidth rectHeight now clock) s =
     onResize cfg rectWidth rectHeight now clock s"
| "step cfg (ReplayTimer clock) s = replayCallback cfg clock s"

fun run :: "config \<Rightarrow> event list \<Rightarrow> anim \<Rightarrow> error + anim" where
  "run cfg [] s = Inr s"
| "run cfg (ev # evs) s =
     (case step cfg ev s of Inl e \<Rightarrow> Inl e | Inr s1 \<Rightarrow> run cfg evs s1)"

subsection \<open>Notions used to state the properties\<close>

text \<open>Two states agree on everything but the requests, the invalidations and the cache nodes.\<close>

definition sameControl :: "anim \<Rightarrow> anim \<Rightarrow> bool" where
  "sameControl s s' \<longleftrightarrow>
     rafId s' = rafId s \<and> isPlaying s' = isPlaying s \<and> isFinished s' = isFinished s
     \<and> destroyed s' = destroyed s \<and> runIndex s' = runIndex s
     \<and> replayTimer s' = replayTimer s \<and> width s' = width s \<and> height s' = height s
     \<and> layout s' = layout s"

text \<open>
  The request state machine as the specification gives it: the successors of a state in
  the chain \<open>pending \<rightarrow> traveling_to_edge \<rightarrow> ... \<rightarrow> done\<close>, where an edge hit returns to the
  user and a regional hit goes on to store at the edge.
\<close>

fun chain_succ :: "reqState \<Rightarrow> reqState list" where
  "chain_succ Pending = [Traveling_to_edge]"
| "chain_succ Traveling_to_edge = [Traveling_to_regional, Edge_hit_return]"
| "chain_succ Traveling_to_regional = [Fetching_origin, Regional_hit_return]"
| "chain_succ Fetching_origin = [Storing_regional]"
| "chain_succ Storing_regional = [Returning_to_edge_from_regional]"
| "chain_succ Returning_to_edge_from_regional = [Storing_edge]"
| "chain_succ Storing_edge = [Returning_to_user]"
| "chain_succ Returning_to_user = [Done]"
| "chain_succ Edge_hit_return = [Done]"
| "chain_succ Regional_hit_return = [Storing_edge]"
| "chain_succ Done = []"

definition chain_step :: "reqState \<Rightarrow> reqState \<Rightarrow> bool" where
  "chain_step a b \<longleftrightarrow> b = a \<or> b \<in> set (chain_succ a)"

text \<open>The assignment \<open>node.cached = v\<close> to the node at position \<open>i\<close>.\<close>

definition setCached :: "bool \<Rightarrow> nat \<Rightarrow> cacheNode list \<Rightarrow> cacheNode list" where
  "setCached v i ns = ns[i := (ns ! i)\<lparr> cached := v \<rparr>]"

subsection \<open>Example states\<close>

text \<open>
  The animator of the shipped configuration on an 800 by 420 canvas: its layout, its cache
  nodes with given flags, the request of user \<open>u\<close>, the state \<open>start()\<close> leaves at
  clock 0, and the state at the end of the first run (\<open>firstRun\<close> lists its frames), when
  every cache is warm and the replay timer is set.
\<close>

definition exLayout :: layout where
  "exLayout =
     \<lparr> users =
         [\<lparr> node_x = 64, node_y = 108, node_w = 56, node_h = 56, assignedEdgeIndex = 0 \<rparr>,
          \<lparr> node_x = 64, node_y = 176, node_w = 56, node_h = 56, assignedEdgeIndex = 1 \<rparr>,
          \<lparr> node_x = 64, node_y = 244, node_w = 56, node_h = 56, assignedEdgeIndex = 2 \<rparr>,
          \<lparr> node_x = 64, node_y = 312, node_w = 56, node_h = 56, assignedEdgeIndex = 2 \<rparr>],
       edges =
         [\<lparr> node_x = 304, node_y = 125, node_w = 140, node_h = 60 \<rparr>,
          \<lparr> node_x = 304, node_y = 210, node_w = 140, node_h = 60 \<rparr>,
          \<lparr> node_x = 304, node_y = 295, node_w = 140, node_h = 60 \<rparr>],
       regionals =
         [\<lparr> node_x = 520, node_y = 460 / 3, node_w = 160, node_h = 56 \<rparr>,
          \<lparr> node_x = 520, node_y = 800 / 3, node_w = 160, node_h = 56 \<rparr>],
       edgesToRegional = [0, 0, 1] \<rparr>"

definition exEdges :: "bool \<Rightarrow> bool \<Rightarrow> bool \<Rightarrow> cacheNode list" where
  "exEdges c0 c1 c2 =
     [\<lparr> node_x = 304, node_y = 125, node_w = 140, node_h = 60, node_index = 0, cached = c0 \<rparr>,
      \<lparr> node_x = 304, node_y = 210, node_w = 140, node_h = 60, node_index = 1, cached = c1 \<rparr>,
      \<lparr> node_x = 304, node_y = 295, node_w = 140, node_h = 60, node_index = 2, cached = c2 \<rparr>]"

definition exRegionals :: "bool \<Rightarrow> bool \<Rightarrow> cacheNode list" where
  "exRegionals c0 c1 =
     [\<lparr> node_x = 520, node_y = 460 / 3, node_w = 160, node_h = 56, node_index = 0, cached = c0 \<rparr>,
      \<lparr> node_x = 520, node_y = 800 / 3, node_w = 160, node_h = 56, node_index = 1, cached = c1 \<rparr>]"

definition exReq :: "nat \<Rightarrow> jsnum \<Rightarrow> reqState \<Rightarrow> real \<Rightarrow> request" where
  "exReq u sa st t =
     \<lparr> userIndex = u, edgeIndex = [0, 1, 2, 2] ! u, regionalIndex = Some ([0, 0, 1, 1] ! u),
       startAt = sa, req_state = st, t0 = t \<rparr>"

definition exStarted :: anim where
  "exStarted =
     \<lparr> rafId = Some Handle, isPlaying = True, isFinished = False, destroyed = False,
       runIndex = 1, replayTimer = None, width = 800, height = 420, layout = exLayout,
       edgesState = exEdges False False False, regionalState = exRegionals False False,
       requests = [exReq 0 (Num 0) Pending 0, exReq 1 PosInfinity Pending 0,
                   exReq 2 PosInfinity Pending 0, exReq 3 PosInfinity Pending 0],
       invalidations = [] \<rparr>"

definition exWarm :: anim where
  "exWarm =
     \<lparr> rafId = None, isPlaying = False, isFinished = True, destroyed = False,
       runIndex = 1, replayTimer = Some Handle, width = 800, height = 420, layout = exLayout,
       edgesState = exEdges True True True, regionalState = exRegionals True True,
       requests = [exReq 0 (Num 0) Done 6700, exReq 1 (Num 7400) Done 11800,
                   exReq 2 (Num 12500) Done 19200, exReq 3 (Num 19900) Done 21300],
       invalidations = [] \<rparr>"

definition firstRun :: "event list" where
  "firstRun = [Frame 0 0, Frame 1400 0, Frame 2800 0, Frame 4200 0, Frame 5100 0,
     Frame 5800 0, Frame 6700 0, Frame 7400 0, Frame 8800 0, Frame 10200 0, Frame 10900 0,
     Frame 11800 0, Frame 12500 0, Frame 13900 0, Frame 15300 0, Frame 16700 0, Frame 17600 0,
     Frame 18300 0, Frame 19200 0, Frame 19900 0, Frame 21300 0, Frame 22000 0, Frame 22016 0]"

text \<open>Two states have the same cache nodes, layout and \<open>destroyed\<close> flag.\<close>

definition sameCaches :: "anim \<Rightarrow> anim \<Rightarrow> bool" where
  "sameCaches s s' \<longleftrightarrow>
     edgesState s' = edgesState s \<and> regionalState s' = regionalState s
     \<and> layout s' = layout s \<and> width s' = width s \<and> height s' = height s
     \<and> destroyed s' = destroyed s"

text \<open>
  The two events that may write a \<open>cached\<close> flag in a frame at time \<open>now\<close>: a request
  that is storing at node \<open>j\<close> has reached progress 1 (it sets the flag), and an
  invalidation of node \<open>j\<close> that is pulsing has reached progress 1 (it clears the flag).
\<close>

definition edgeStoreDue :: "config \<Rightarrow> real \<Rightarrow> anim \<Rightarrow> nat \<Rightarrow> bool" where
  "edgeStoreDue cfg now s j \<longleftrightarrow>
     list_ex (\<lambda>r. req_state r = Storing_edge \<and> edgeIndex r = int j
                  \<and> ge1 (progress now (t0 r) (cacheStoreMs cfg))) (requests s)"

definition regionalStoreDue :: "config \<Rightarrow> real \<Rightarrow> anim \<Rightarrow> nat \<Rightarrow> bool" where
  "regionalStoreDue cfg now s j \<longleftrightarrow>
     list_ex (\<lambda>r. req_state r = Storing_regional \<and> regionalIndex r = Some j
                  \<and> ge1 (progress now (t0 r) (cacheStoreMs cfg))) (requests s)"

definition pulseDue :: "real \<Rightarrow> invType \<Rightarrow> anim \<Rightarrow> nat \<Rightarrow> bool" where
  "pulseDue now ty s j \<longleftrightarrow>
     list_ex (\<lambda>v. inv_state v = Pulsing \<and> inv_type v = ty \<and> targetIndex v = j
                  \<and> ge1 (progress now (startTime v) (duration v))) (invalidations s)"

text \<open>The state five frames into the first run: the first request has warmed regional
  cache 0 and is on its way back to the edge.\<close>

definition exRegionalWarm :: anim where
  "exRegionalWarm =
     exStarted\<lparr> regionalState := exRegionals True False,
                requests := [exReq 0 (Num 0) Returning_to_edge_from_regional 5100,
                             exReq 1 PosInfinity Pending 0, exReq 2 PosInfinity Pending 0,
                             exReq 3 PosInfinity Pending 0] \<rparr>"

text \<open>
  A property of the request list that holds of every batch \<open>setupRun\<close> seeds and that
  the loop over the requests and the click on a user keep.
\<close>

definition requestInvariant :: "config \<Rightarrow> (request list \<Rightarrow> bool) \<Rightarrow> bool" where
  "requestInvariant cfg I \<longleftrightarrow>
     (\<forall>c t t'. setupRun cfg c t = Inr t' \<longrightarrow> I (requests t'))
     \<and> (\<forall>now t t' n. processRequests cfg now t = Inr (t', n) \<and> I (requests t)
            \<longrightarrow> I (requests t'))
     \<and> (\<forall>x y c i t t'. clickUser cfg x y c i t = Inr t' \<and> I (requests t)
            \<longrightarrow> I (requests t'))"

text \<open>The requests of user \<open>u\<close> that are in flight (not \<open>done\<close>).\<close>

definition inFlight :: "nat \<Rightarrow> request list \<Rightarrow> request list" where
  "inFlight u rs = filter (\<lambda>r. userIndex r = u \<and> req_state r \<noteq> Done) rs"

definition oneInFlight :: "request list \<Rightarrow> bool" where
  "oneInFlight rs \<longleftrightarrow> (\<forall>u. length (inFlight u rs) \<le> 1)"

text \<open>No click hits two user nodes.\<close>

definition usersApart :: "user list \<Rightarrow> bool" where
  "usersApart us \<longleftrightarrow>
     (\<forall>i j x y. i < length us \<and> j < length us
        \<and> insideUser (us ! i) x y \<and> insideUser (us ! j) x y \<longrightarrow> i = j)"

text \<open>
  The order of a sequential batch: the batch is the first \<open>usersCount\<close> requests of the
  list, and each of them but the first is still pending with the start time
  \<open>Infinity\<close> unless its predecessor is done.
\<close>

definition seqOrdered :: "config \<Rightarrow> request list \<Rightarrow> bool" where
  "seqOrdered cfg rs \<longleftrightarrow>
     usersCount cfg \<le> length rs
     \<and> (\<forall>i. Suc i < usersCount cfg \<longrightarrow>
           (req_state (rs ! Suc i) = Pending \<and> startAt (rs ! Suc i) = PosInfinity)
           \<or> req_state (rs ! i) = Done)"

text \<open>The state eight frames into the first run: the first request is done, both its
  caches are warm, and the second request has just started.\<close>

definition exFirstDone :: anim where
  "exFirstDone =
     exStarted\<lparr> edgesState := exEdges True False False,
                regionalState := exRegionals True False,
                requests := [exReq 0 (Num 0) Done 6700,
                             exReq 1 (Num 7400) Traveling_to_edge 7400,
                             exReq 2 PosInfinity Pending 0, exReq 3 PosInfinity Pending 0] \<rparr>"


text \<open>
  Some cache node is cold in the first list and warm at the same position of the second:
  a cache entry became warm between the two.
\<close>

definition turnedWarm :: "cacheNode list \<Rightarrow> cacheNode list \<Rightarrow> bool" where
  "turnedWarm ns ns' \<longleftrightarrow> list_ex (\<lambda>p. \<not> cached (fst p) \<and> cached (snd p)) (zip ns ns')"

text \<open>Some event of the sequence, applied from \<open>s\<close> on, made a cache entry warm.\<close>

fun warmedDuring :: "config \<Rightarrow> event list \<Rightarrow> anim \<Rightarrow> bool" where
  "warmedDuring cfg [] s = False"
| "warmedDuring cfg (ev # evs) s =
     (case step cfg ev s of
        Inl e \<Rightarrow> False
      | Inr s1 \<Rightarrow>
          turnedWarm (edgesState s) (edgesState s1)
          \<or> turnedWarm (regionalState s) (regionalState s1)
          \<or> warmedDuring cfg evs s1)"

text \<open>
  The state of the shipped configuration before the last frame of the first run, and a
  second run from the end of the first: \<open>restart()\<close> at 23000 ms, every request an edge
  hit, up to the frame before the one that finds nothing active, and that frame.
\<close>

definition exBeforeEnd :: anim where
  "exBeforeEnd = exWarm\<lparr> rafId := Some Handle, isPlaying := True, isFinished := False,
                         replayTimer := None \<rparr>"

definition secondRun :: "event list" where
  "secondRun = [Restart 23000, Frame 23000 0, Frame 24400 0, Frame 25100 0, Frame 26500 0,
     Frame 27200 0, Frame 28600 0, Frame 29300 0, Frame 30700 0, Frame 31400 0]"

definition exSecondDone :: anim where
  "exSecondDone =
     \<lparr> rafId = Some Handle, isPlaying = True, isFinished = False, destroyed = False,
       runIndex = 1, replayTimer = None, width = 800, height = 420, layout = exLayout,
       edgesState = exEdges True True True, regionalState = exRegionals True True,
       requests = [exReq 0 (Num 23000) Done 24400, exReq 1 (Num 25100) Done 26500,
                   exReq 2 (Num 27200) Done 28600, exReq 3 (Num 29300) Done 30700],
       invalidations = [] \<rparr>"

text \<open>Every invalidation event of the state has a positive duration.\<close>

definition durationsPositive :: "anim \<Rightarrow> bool" where
  "durationsPositive s \<longleftrightarrow> list_all (\<lambda>iv. 0 < duration iv) (invalidations s)"

section \<open>Properties\<close>

subsection \<open>Layout: the assigned edge of a user\<close>

lemma users_calculateLayoutPositions:
  "i < usersCount cfg \<Longrightarrow>
   assignedEdgeIndex (users (layout (calculateLayoutPositions cfg s)) ! i) = assignEdgeIndex cfg i"
  by (simp add: calculateLayoutPositions_def Let_def)

lemma js_round_bounds:
  assumes "0 \<le> r" and "r \<le> real_of_int k"
  shows "0 \<le> js_round r \<and> js_round r \<le> k"
proof -
  have "0 \<le> \<lfloor>r + 1 / 2\<rfloor>" using assms(1) by simp
  moreover have "r + 1 / 2 < real_of_int (k + 1)" using assms(2) by simp
  then have "\<lfloor>r + 1 / 2\<rfloor> < k + 1" by (simp only: floor_less_iff)
  ultimately show ?thesis by (simp add: js_round_def)
qed

lemma spreadEdgeIndex_bounds:
  assumes "0 < edgesCount cfg" and "i < usersCount cfg"
  shows "0 \<le> spreadEdgeIndex cfg i \<and> spreadEdgeIndex cfg i \<le> int (edgesCount cfg) - 1"
proof -
  let ?e = "real (edgesCount cfg) - 1"
  let ?d = "max 1 (real (usersCount cfg) - 1)"
  have e0: "0 \<le> ?e" using assms(1) by simp
  have d1: "0 < ?d" by simp
  have id: "real i \<le> ?d" using assms(2) by simp
  have "real i * ?e \<le> ?d * ?e" using id e0 by (rule mult_right_mono)
  then have up: "real i * ?e / ?d \<le> ?e" using d1 by (simp add: divide_le_eq mult.commute)
  have lo: "0 \<le> real i * ?e / ?d" using e0 d1 by simp
  from up have up': "real i * ?e / ?d \<le> real_of_int (int (edgesCount cfg) - 1)" by simp
  show ?thesis unfolding spreadEdgeIndex_def using js_round_bounds [OF lo up'] by simp
qed

lemma assignEdgeIndex_bounds:
  assumes "0 < edgesCount cfg"
    and "case userEdgeMap cfg of None \<Rightarrow> True | Some m \<Rightarrow> list_all (\<lambda>v. 0 \<le> v) m"
    and "i < usersCount cfg"
  shows "0 \<le> assignEdgeIndex cfg i \<and> assignEdgeIndex cfg i < int (edgesCount cfg)"
proof (cases "userEdgeMap cfg")
  case None
  then show ?thesis
    using spreadEdgeIndex_bounds [OF assms(1) assms(3)] by (simp add: assignEdgeIndex_def)
next
  case (Some m)
  show ?thesis
  proof (cases "i < length m")
    case True
    with Some assms(2) have "0 \<le> m ! i" by (simp add: list_all_length)
    with Some True assms(1) show ?thesis by (simp add: assignEdgeIndex_def)
  next
    case False
    with Some show ?thesis
      using spreadEdgeIndex_bounds [OF assms(1) assms(3)] by (simp add: assignEdgeIndex_def)
  qed
qed

text \<open>
  Where the assignment stays in range: when there is at least one edge and no configured
  \<open>userEdgeMap\<close> value is negative, every user of the computed layout is assigned an
  edge index in \<open>[0, edgesCount)\<close>.
\<close>

theorem assignedEdgeIndex_in_range:
  assumes "0 < edgesCount cfg"
    and "case userEdgeMap cfg of None \<Rightarrow> True | Some m \<Rightarrow> list_all (\<lambda>v. 0 \<le> v) m"
    and "i < usersCount cfg"
  shows "0 \<le> assignedEdgeIndex (users (layout (calculateLayoutPositions cfg s)) ! i)
       \<and> assignedEdgeIndex (users (layout (calculateLayoutPositions cfg s)) ! i)
           < int (edgesCount cfg)"
  using assignEdgeIndex_bounds [OF assms] users_calculateLayoutPositions [OF assms(3)]
  by simp

theorem assignedEdgeIndex_in_range_witness:
  "0 \<le> assignedEdgeIndex
          (users (layout (calculateLayoutPositions
             (ANIM_CONFIG\<lparr> userEdgeMap := Some [0, 1, 2, 7] \<rparr>) initialState)) ! 3)
   \<and> assignedEdgeIndex
          (users (layout (calculateLayoutPositions
             (ANIM_CONFIG\<lparr> userEdgeMap := Some [0, 1, 2, 7] \<rparr>) initialState)) ! 3) < 3"
  using assignedEdgeIndex_in_range
          [of "ANIM_CONFIG\<lparr> userEdgeMap := Some [0, 1, 2, 7] \<rparr>" 3 initialState]
  by (simp add: ANIM_CONFIG_def)

text \<open>
  The index a user is assigned is the configured value capped at the last edge, and the
  rounded even spread where no value is configured.
\<close>

lemma assignedEdgeIndex_value:
  assumes "i < usersCount cfg"
  shows "assignedEdgeIndex (users (layout (calculateLayoutPositions cfg s)) ! i) =
     (case userEdgeMap cfg of
        Some m \<Rightarrow>
          (if i < length m then min (int (edgesCount cfg) - 1) (m ! i)
           else js_round (real i * (real (edgesCount cfg) - 1) / max 1 (real (usersCount cfg) - 1)))
      | None \<Rightarrow>
          js_round (real i * (real (edgesCount cfg) - 1) / max 1 (real (usersCount cfg) - 1)))"
  using users_calculateLayoutPositions [OF assms]
  by (simp add: assignEdgeIndex_def spreadEdgeIndex_def split: option.splits)

subsection \<open>One request in one frame\<close>

lemma list_update_nth_self: "xs[i := y] = xs[i := xs[i := y] ! i]"
  by (cases "i < length xs") (simp_all add: list_update_beyond)

lemma progress_same_instant: "\<not> ge1 (progress now now d)"
  by (simp add: progress_def js_div_def)

lemma switchState_control:
  assumes "switchState cfg now ei ri req s = Inr (req', s')"
  shows "sameControl s s' \<and> requests s' = requests s \<and> invalidations s' = invalidations s"
  using assms
  by (auto simp: switchState_def sameControl_def Let_def split: reqState.splits if_splits)

lemma switchState_ids:
  assumes "switchState cfg now ei ri req s = Inr (req', s')"
  shows "userIndex req' = userIndex req \<and> edgeIndex req' = edgeIndex req
       \<and> regionalIndex req' = regionalIndex req \<and> startAt req' = startAt req"
  using assms
  by (auto simp: switchState_def Let_def nextState_def split: reqState.splits if_splits)

lemma switchState_chain:
  assumes "switchState cfg now ei ri req s = Inr (req', s')"
  shows "chain_step (req_state req) (req_state req')"
  using assms
  by (auto simp: switchState_def Let_def nextState_def chain_step_def
      split: reqState.splits if_splits)

lemma switchState_fresh:
  assumes "switchState cfg now ei ri req s = Inr (req', s')"
    and "req_state req = Traveling_to_edge" and "t0 req = now"
  shows "req' = req \<and> s' = s"
  using assms
  by (auto simp: switchState_def Let_def progress_same_instant)

lemma switchState_edges:
  assumes "switchState cfg now ei ri req s = Inr (req', s')"
  shows "edgesState s' = edgesState s
       \<or> req_state req = Storing_edge \<and> ge1 (progress now (t0 req) (cacheStoreMs cfg))
         \<and> edgesState s' = setCached True ei (edgesState s)"
  using assms
  by (auto simp: switchState_def Let_def setCached_def split: reqState.splits if_splits)

lemma switchState_regionals:
  assumes "switchState cfg now ei ri req s = Inr (req', s')"
  shows "regionalState s' = regionalState s
       \<or> req_state req = Storing_regional \<and> ge1 (progress now (t0 req) (cacheStoreMs cfg))
         \<and> regionalState s' = setCached True ri (regionalState s)"
  using assms
  by (auto simp: switchState_def Let_def setCached_def split: reqState.splits if_splits)

lemma wakeRequest_ids:
  "userIndex (wakeRequest cfg now rs i req) = userIndex req
   \<and> edgeIndex (wakeRequest cfg now rs i req) = edgeIndex req
   \<and> regionalIndex (wakeRequest cfg now rs i req) = regionalIndex req"
  by (simp add: wakeRequest_def Let_def)

lemma wakeRequest_state:
  "req_state (wakeRequest cfg now rs i req) = req_state req
     \<and> t0 (wakeRequest cfg now rs i req) = t0 req
   \<or> req_state req = Pending
     \<and> req_state (wakeRequest cfg now rs i req) = Traveling_to_edge
     \<and> t0 (wakeRequest cfg now rs i req) = now
     \<and> js_ge now (startAt (wakeRequest cfg now rs i req))"
  by (simp add: wakeRequest_def Let_def)

lemma wakeRequest_startAt:
  "startAt (wakeRequest cfg now rs i req) = startAt req
   \<or> sequential cfg \<and> startAt req = PosInfinity \<and> predecessorDone rs i
     \<and> startAt (wakeRequest cfg now rs i req) = Num now"
  by (simp add: wakeRequest_def Let_def)


lemma wakeRequest_waiting:
  assumes "req_state req = Pending" and "startAt req = PosInfinity"
    and "\<not> (sequential cfg \<and> predecessorDone rs i)"
  shows "wakeRequest cfg now rs i req = req"
  using assms by (auto simp: wakeRequest_def Let_def)

text \<open>The shape of one callback run.\<close>

lemma processRequest_unfold:
  assumes "processRequest cfg now i (s, a) = Inr (s', a')"
  obtains (skip) "s' = s" "a' = a"
      "\<not> hasNodes s (requests s ! i) \<or> req_state (requests s ! i) = Done"
    | (wait) "hasNodes s (requests s ! i)" "req_state (requests s ! i) \<noteq> Done"
      "req_state (wakeRequest cfg now (requests s) i (requests s ! i)) = Pending"
      "s' = s\<lparr> requests := (requests s)[i := wakeRequest cfg now (requests s) i (requests s ! i)] \<rparr>"
      "a' = a"
    | (adv) req3 s1 where "hasNodes s (requests s ! i)" "req_state (requests s ! i) \<noteq> Done"
      "req_state (wakeRequest cfg now (requests s) i (requests s ! i)) \<noteq> Pending"
      "switchState cfg now (nat (edgeIndex (requests s ! i))) (the (regionalIndex (requests s ! i)))
         (wakeRequest cfg now (requests s) i (requests s ! i)) s = Inr (req3, s1)"
      "s' = s1\<lparr> requests := (requests s)[i := req3] \<rparr>" "a' = a + 1"
      "requests s1 = requests s"
  using assms
  by (auto simp: processRequest_def Let_def dest: switchState_control
      split: if_splits sum.splits prod.splits)

lemma processRequest_control:
  assumes "processRequest cfg now i (s, a) = Inr (s', a')"
  shows "sameControl s s' \<and> invalidations s' = invalidations s"
  using assms
proof (cases rule: processRequest_unfold)
  case skip
  then show ?thesis by (simp add: sameControl_def)
next
  case wait
  then show ?thesis by (simp add: sameControl_def)
next
  case (adv req3 s1)
  from switchState_control [OF adv(4)] adv(5) show ?thesis by (simp add: sameControl_def)
qed

lemma processRequest_requests:
  assumes "processRequest cfg now i (s, a) = Inr (s', a')"
  shows "requests s' = (requests s)[i := requests s' ! i]"
  using assms
proof (cases rule: processRequest_unfold)
  case skip
  then show ?thesis by simp
next
  case wait
  then show ?thesis by (simp add: list_update_nth_self [symmetric])
next
  case (adv req3 s1)
  then show ?thesis by (simp add: list_update_nth_self [symmetric])
qed

lemma processRequest_ids:
  assumes "processRequest cfg now i (s, a) = Inr (s', a')" and i: "i < length (requests s)"
  shows "userIndex (requests s' ! i) = userIndex (requests s ! i)
       \<and> edgeIndex (requests s' ! i) = edgeIndex (requests s ! i)
       \<and> regionalIndex (requests s' ! i) = regionalIndex (requests s ! i)"
  using assms(1)
proof (cases rule: processRequest_unfold)
  case skip
  then show ?thesis by simp
next
  case wait
  with i show ?thesis by (simp add: wakeRequest_ids)
next
  case (adv req3 s1)
  from switchState_ids [OF adv(4)] adv(5) i show ?thesis by (simp add: wakeRequest_ids)
qed

lemma processRequest_chain:
  assumes "processRequest cfg now i (s, a) = Inr (s', a')" and i: "i < length (requests s)"
  shows "chain_step (req_state (requests s ! i)) (req_state (requests s' ! i))"
  using assms(1)
proof (cases rule: processRequest_unfold)
  case skip
  then show ?thesis by (simp add: chain_step_def)
next
  case wait
  with i wakeRequest_state [of cfg now "requests s" i "requests s ! i"]
  show ?thesis by (auto simp: chain_step_def)
next
  case (adv req3 s1)
  let ?w = "wakeRequest cfg now (requests s) i (requests s ! i)"
  from wakeRequest_state [of cfg now "requests s" i "requests s ! i"]
  show ?thesis
  proof
    assume "req_state ?w = req_state (requests s ! i) \<and> t0 ?w = t0 (requests s ! i)"
    with switchState_chain [OF adv(4)] adv(5) i show ?thesis by simp
  next
    assume b: "req_state (requests s ! i) = Pending \<and> req_state ?w = Traveling_to_edge
        \<and> t0 ?w = now \<and> js_ge now (startAt ?w)"
    with switchState_fresh [OF adv(4)] have "req3 = ?w" by simp
    with b adv(5) i show ?thesis by (simp add: chain_step_def)
  qed
qed

lemma processRequest_Done:
  assumes "processRequest cfg now i (s, a) = Inr (s', a')"
    and "req_state (requests s ! i) = Done"
  shows "s' = s \<and> a' = a"
  using assms by (cases rule: processRequest_unfold) simp_all

lemma processRequest_startAt:
  assumes "processRequest cfg now i (s, a) = Inr (s', a')" and i: "i < length (requests s)"
  shows "startAt (requests s' ! i) = startAt (requests s ! i)
       \<or> sequential cfg \<and> startAt (requests s ! i) = PosInfinity
         \<and> predecessorDone (requests s) i \<and> startAt (requests s' ! i) = Num now"
  using assms(1)
proof (cases rule: processRequest_unfold)
  case skip
  then show ?thesis by simp
next
  case wait
  with i wakeRequest_startAt [of cfg now "requests s" i "requests s ! i"]
  show ?thesis by simp
next
  case (adv req3 s1)
  from switchState_ids [OF adv(4)] adv(5) i
    wakeRequest_startAt [of cfg now "requests s" i "requests s ! i"]
  show ?thesis by simp
qed

lemma processRequest_started:
  assumes "processRequest cfg now i (s, a) = Inr (s', a')" and i: "i < length (requests s)"
    and "req_state (requests s ! i) = Pending" and "req_state (requests s' ! i) \<noteq> Pending"
  shows "js_ge now (startAt (requests s' ! i))"
  using assms(1)
proof (cases rule: processRequest_unfold)
  case skip
  with assms show ?thesis by simp
next
  case wait
  with assms show ?thesis by simp
next
  case (adv req3 s1)
  from switchState_ids [OF adv(4)] adv(5) i adv(3) assms(3)
    wakeRequest_state [of cfg now "requests s" i "requests s ! i"]
  show ?thesis by simp
qed

lemma processRequest_active:
  assumes "processRequest cfg now i (s, a) = Inr (s', a')"
  shows "a \<le> a'"
  using assms by (cases rule: processRequest_unfold) simp_all

lemma processRequest_edges:
  assumes "processRequest cfg now i (s, a) = Inr (s', a')"
  shows "edgesState s' = edgesState s
       \<or> a < a' \<and> hasNodes s (requests s ! i) \<and> req_state (requests s ! i) = Storing_edge
         \<and> ge1 (progress now (t0 (requests s ! i)) (cacheStoreMs cfg))
         \<and> edgesState s' = setCached True (nat (edgeIndex (requests s ! i))) (edgesState s)"
  using assms
proof (cases rule: processRequest_unfold)
  case skip
  then show ?thesis by simp
next
  case wait
  then show ?thesis by simp
next
  case (adv req3 s1)
  from switchState_edges [OF adv(4)] adv(1,5,6)
    wakeRequest_state [of cfg now "requests s" i "requests s ! i"]
  show ?thesis by auto
qed

lemma processRequest_regionals:
  assumes "processRequest cfg now i (s, a) = Inr (s', a')"
  shows "regionalState s' = regionalState s
       \<or> a < a' \<and> hasNodes s (requests s ! i) \<and> req_state (requests s ! i) = Storing_regional
         \<and> ge1 (progress now (t0 (requests s ! i)) (cacheStoreMs cfg))
         \<and> regionalState s' = setCached True (the (regionalIndex (requests s ! i)))
               (regionalState s)"
  using assms
proof (cases rule: processRequest_unfold)
  case skip
  then show ?thesis by simp
next
  case wait
  then show ?thesis by simp
next
  case (adv req3 s1)
  from switchState_regionals [OF adv(4)] adv(1,5,6)
    wakeRequest_state [of cfg now "requests s" i "requests s ! i"]
  show ?thesis by auto
qed


subsection \<open>The whole loop over the requests\<close>

lemma forEach_invariant:
  assumes "forEach f is a = Inr b" and "P a"
    and "\<And>i x y. i \<in> set is \<Longrightarrow> P x \<Longrightarrow> f i x = Inr y \<Longrightarrow> P y"
  shows "P b"
  using assms
proof (induction "is" arbitrary: a)
  case Nil
  then show ?case by simp
next
  case (Cons i "is")
  from Cons.prems(1) obtain a1 where a1: "f i a = Inr a1" and rest: "forEach f is a1 = Inr b"
    by (auto split: sum.splits)
  have "P a1" using Cons.prems(3) [OF _ Cons.prems(2) a1] by simp
  show ?case
  proof (rule Cons.IH [OF rest \<open>P a1\<close>])
    fix k x y assume "k \<in> set is" "P x" "f k x = Inr y"
    then show "P y" using Cons.prems(3) [of k x y] by simp
  qed
qed

lemma processRequest_length:
  assumes "processRequest cfg now i (s, a) = Inr (s', a')"
  shows "length (requests s') = length (requests s)"
  using processRequest_requests [OF assms]
  by (metis length_list_update)

lemma processRequest_other:
  assumes "processRequest cfg now i (s, a) = Inr (s', a')" and "k \<noteq> i"
  shows "requests s' ! k = requests s ! k"
  using processRequest_requests [OF assms(1)] assms(2)
  by (metis nth_list_update_neq)

lemma forEach_processRequest_induct [consumes 3, case_names Nil Cons]:
  assumes run: "forEach (processRequest cfg now) is (s, a) = Inr (s', a')"
    and dist: "distinct is"
    and bound: "\<forall>i\<in>set is. i < length (requests s)"
    and nil: "\<And>s a. P [] s a s a"
    and cons: "\<And>i is s a s1 a1 s' a'.
        \<lbrakk> processRequest cfg now i (s, a) = Inr (s1, a1); i < length (requests s);
          i \<notin> set is; \<forall>k\<in>set is. requests s1 ! k = requests s ! k;
          forEach (processRequest cfg now) is (s1, a1) = Inr (s', a');
          requests s' ! i = requests s1 ! i;
          P is s1 a1 s' a' \<rbrakk> \<Longrightarrow> P (i # is) s a s' a'"
  shows "P is s a s' a'"
proof -
  have "P is s a s' a' \<and> (\<forall>j. j \<notin> set is \<longrightarrow> requests s' ! j = requests s ! j)"
    using run dist bound
  proof (induction "is" arbitrary: s a)
    case Nil
    then show ?case by (simp add: nil)
  next
    case (Cons i "is")
    from Cons.prems(1) obtain s1 a1 where
      st: "processRequest cfg now i (s, a) = Inr (s1, a1)"
      and rest: "forEach (processRequest cfg now) is (s1, a1) = Inr (s', a')"
      by (auto split: sum.splits)
    have len: "length (requests s1) = length (requests s)"
      by (rule processRequest_length [OF st])
    have oth: "\<forall>k\<in>set is. requests s1 ! k = requests s ! k"
    proof
      fix k assume "k \<in> set is"
      with Cons.prems(2) have "k \<noteq> i" by auto
      then show "requests s1 ! k = requests s ! k" by (rule processRequest_other [OF st])
    qed
    have ih: "P is s1 a1 s' a' \<and> (\<forall>j. j \<notin> set is \<longrightarrow> requests s' ! j = requests s1 ! j)"
      using Cons.IH [OF rest] Cons.prems(2,3) len by simp
    have i: "i < length (requests s)" "i \<notin> set is" using Cons.prems(2,3) by simp_all
    have "P (i # is) s a s' a'"
      using cons [OF st i(1) i(2) oth rest _ conjunct1 [OF ih]] ih i(2) by simp
    moreover have "\<forall>j. j \<notin> set (i # is) \<longrightarrow> requests s' ! j = requests s ! j"
      using ih processRequest_other [OF st] by simp
    ultimately show ?case by simp
  qed
  then show ?thesis by simp
qed

lemma processRequests_induct [consumes 1, case_names Nil Cons]:
  assumes run: "processRequests cfg now s = Inr (s', n)"
    and nil: "\<And>s a. P [] s a s a"
    and cons: "\<And>i is s a s1 a1 s' a'.
        \<lbrakk> processRequest cfg now i (s, a) = Inr (s1, a1); i < length (requests s);
          i \<notin> set is; \<forall>k\<in>set is. requests s1 ! k = requests s ! k;
          forEach (processRequest cfg now) is (s1, a1) = Inr (s', a');
          requests s' ! i = requests s1 ! i;
          P is s1 a1 s' a' \<rbrakk> \<Longrightarrow> P (i # is) s a s' a'"
  shows "P [0 ..< length (requests s)] s 0 s' n"
  using run unfolding processRequests_def
  by (rule forEach_processRequest_induct) (simp_all add: nil cons)

lemma processRequests_control:
  assumes "processRequests cfg now s = Inr (s', n)"
  shows "sameControl s s' \<and> invalidations s' = invalidations s
       \<and> length (requests s') = length (requests s)
       \<and> length (edgesState s') = length (edgesState s)
       \<and> length (regionalState s') = length (regionalState s)"
proof -
  let ?P = "\<lambda>x. sameControl s (fst x) \<and> invalidations (fst x) = invalidations s
       \<and> length (requests (fst x)) = length (requests s)
       \<and> length (edgesState (fst x)) = length (edgesState s)
       \<and> length (regionalState (fst x)) = length (regionalState s)"
  have "?P (s', n)"
  proof (rule forEach_invariant [where P = ?P,
        OF assms [unfolded processRequests_def]])
    show "?P (s, 0)" by (simp add: sameControl_def)
  next
    fix i x y assume p: "?P x" and st: "processRequest cfg now i x = Inr y"
    obtain sx ax sy ay where x: "x = (sx, ax)" and y: "y = (sy, ay)" by (cases x, cases y) auto
    from st x y have st': "processRequest cfg now i (sx, ax) = Inr (sy, ay)" by simp
    from processRequest_control [OF st'] processRequest_length [OF st']
      processRequest_edges [OF st'] processRequest_regionals [OF st'] p x y
    show "?P y" by (auto simp: sameControl_def setCached_def)
  qed
  then show ?thesis by simp
qed

lemma processRequests_chain:
  assumes "processRequests cfg now s = Inr (s', n)" and "j < length (requests s)"
  shows "chain_step (req_state (requests s ! j)) (req_state (requests s' ! j))
       \<and> userIndex (requests s' ! j) = userIndex (requests s ! j)
       \<and> edgeIndex (requests s' ! j) = edgeIndex (requests s ! j)
       \<and> regionalIndex (requests s' ! j) = regionalIndex (requests s ! j)"
proof -
  let ?P = "\<lambda>is s (a::nat) s' (a'::nat). \<forall>j \<in> set is.
       chain_step (req_state (requests s ! j)) (req_state (requests s' ! j))
       \<and> userIndex (requests s' ! j) = userIndex (requests s ! j)
       \<and> edgeIndex (requests s' ! j) = edgeIndex (requests s ! j)
       \<and> regionalIndex (requests s' ! j) = regionalIndex (requests s ! j)"
  from assms(1) have "?P [0 ..< length (requests s)] s 0 s' n"
  proof (induction rule: processRequests_induct)
    case Nil
    then show ?case by simp
  next
    case (Cons i "is" s a s1 a1 s' a')
    from processRequest_chain [OF Cons(1,2)] processRequest_ids [OF Cons(1,2)] Cons(4,6,7)
    show ?case by simp
  qed
  with assms(2) show ?thesis by simp
qed

subsection \<open>Evaluating the model on concrete runs\<close>

lemma upt_4: "[0 ..< 4] = [0, 1, 2, 3]"
  by code_simp

lemma upt_3: "[0 ..< 3] = [0, 1, 2]"
  by code_simp

lemma upt_2: "[0 ..< 2] = [0, 1]"
  by code_simp

lemma upt_1: "[0 ..< 1] = [0]"
  by code_simp

lemmas eval_defs =
  ANIM_CONFIG_def initialState_def DEFAULT_HEIGHT_def Let_def
  js_round_def js_div_def nth_opt_def js_index_def
  assignEdgeIndex_def calculateLayoutPositions_def drawStaticToBuffer_def
  cachedAt_def toCacheNode_def sizeCanvas_def newRequest_def setupRun_def
  progress_def nextState_def predecessorDone_def switchState_def hasNodes_def
  wakeRequest_def processRequest_def processRequests_def
  processInvalidation_def processInvalidations_def pauseLoop_def endFrame_def renderFrame_def
  replayCallback_def clearCache_def onPlayPauseClick_def onClearCacheClick_def
  invalidationsFor_def invalidateAllCaches_def insideUser_def clickUser_def onCanvasClick_def
  onResize_def start_def destroy_def
  upt_4 upt_3 upt_2 upt_1

lemmas ex_defs = exLayout_def exEdges_def exRegionals_def exReq_def exStarted_def exWarm_def

lemma exStarted_reachable: "start ANIM_CONFIG 800 420 0 initialState = Inr exStarted"
  by (simp add: ex_defs eval_defs)

lemma exWarm_reachable: "run ANIM_CONFIG firstRun exStarted = Inr exWarm"
  by (simp add: firstRun_def ex_defs eval_defs)

subsection \<open>One frame\<close>

lemma setupRun_fields:
  assumes "setupRun cfg clock s = Inr s'"
  shows "invalidations s' = invalidations s \<and> edgesState s' = edgesState s
       \<and> regionalState s' = regionalState s \<and> layout s' = layout s
       \<and> destroyed s' = destroyed s \<and> rafId s' = rafId s \<and> isPlaying s' = isPlaying s
       \<and> width s' = width s \<and> height s' = height s
       \<and> \<not> isFinished s' \<and> replayTimer s' = None \<and> runIndex s' = runIndex s + 1"
  using assms by (auto simp: setupRun_def Let_def split: sum.splits if_splits)

lemma endFrame_fields:
  "requests (endFrame n s) = requests s \<and> invalidations (endFrame n s) = invalidations s
   \<and> edgesState (endFrame n s) = edgesState s \<and> regionalState (endFrame n s) = regionalState s
   \<and> layout (endFrame n s) = layout s \<and> destroyed (endFrame n s) = destroyed s
   \<and> runIndex (endFrame n s) = runIndex s
   \<and> width (endFrame n s) = width s \<and> height (endFrame n s) = height s"
  by (simp add: endFrame_def Let_def pauseLoop_def)

lemma renderFrame_unfold:
  assumes "renderFrame cfg now clock s = Inr s'"
  obtains s1 s2 a s3 b where
    "(if requests s = [] \<and> \<not> isFinished s \<and> invalidations s = []
      then setupRun cfg clock s else Inr s) = Inr s1"
    "processRequests cfg now s1 = Inr (s2, a)"
    "processInvalidations cfg now s2 = Inr (s3, b)"
    "s' = endFrame (a + b) s3"
  using assms unfolding renderFrame_def
  by (auto split: sum.splits)

subsection \<open>One invalidation in one frame\<close>

lemma processInvalidation_control:
  assumes "processInvalidation cfg now i (s, a) = Inr (s', a')"
  shows "sameControl s s' \<and> requests s' = requests s
       \<and> length (edgesState s') = length (edgesState s)
       \<and> length (regionalState s') = length (regionalState s) \<and> a \<le> a'
       \<and> length (invalidations s') = length (invalidations s)"
  using assms
  by (auto simp: processInvalidation_def Let_def sameControl_def
       split: if_splits option.splits invState.splits)

lemma processInvalidation_other:
  assumes "processInvalidation cfg now i (s, a) = Inr (s', a')" and "k \<noteq> i"
  shows "invalidations s' ! k = invalidations s ! k"
  using assms
  by (auto simp: processInvalidation_def Let_def
       split: if_splits option.splits invState.splits)

lemma processInvalidation_edges:
  assumes "processInvalidation cfg now i (s, a) = Inr (s', a')"
  shows "edgesState s' = edgesState s
       \<or> inv_state (invalidations s ! i) = Pulsing \<and> inv_type (invalidations s ! i) = Edge
         \<and> ge1 (progress now (startTime (invalidations s ! i)) (duration (invalidations s ! i)))
         \<and> targetIndex (invalidations s ! i) < length (edgesState s)
         \<and> edgesState s' = setCached False (targetIndex (invalidations s ! i)) (edgesState s)"
  using assms
  by (auto simp: processInvalidation_def Let_def setCached_def nth_opt_def
       split: if_splits option.splits invState.splits)

lemma processInvalidation_regionals:
  assumes "processInvalidation cfg now i (s, a) = Inr (s', a')"
  shows "regionalState s' = regionalState s
       \<or> inv_state (invalidations s ! i) = Pulsing \<and> inv_type (invalidations s ! i) \<noteq> Edge
         \<and> ge1 (progress now (startTime (invalidations s ! i)) (duration (invalidations s ! i)))
         \<and> targetIndex (invalidations s ! i) < length (regionalState s)
         \<and> regionalState s' = setCached False (targetIndex (invalidations s ! i)) (regionalState s)"
  using assms
  by (auto simp: processInvalidation_def Let_def setCached_def nth_opt_def
       split: if_splits option.splits invState.splits)

lemma processInvalidation_inactive:
  assumes "processInvalidation cfg now i (s, a) = Inr (s', a')" and "a' = a"
  shows "s' = s"
  using assms
  by (auto simp: processInvalidation_def Let_def
       split: if_splits option.splits invState.splits)

lemma processInvalidations_control:
  assumes "processInvalidations cfg now s = Inr (s', n)"
  shows "sameControl s s' \<and> requests s' = requests s
       \<and> length (edgesState s') = length (edgesState s)
       \<and> length (regionalState s') = length (regionalState s)"
proof -
  from assms obtain s1 where
    fe: "forEach (processInvalidation cfg now) [0 ..< length (invalidations s)] (s, 0) = Inr (s1, n)"
    and s': "s' = s1\<lparr> invalidations :=
                filter (\<lambda>inv. inv_state inv \<noteq> Inv_done) (invalidations s1) \<rparr>"
    unfolding processInvalidations_def by (auto split: sum.splits)
  let ?P = "\<lambda>x. sameControl s (fst x) \<and> requests (fst x) = requests s
       \<and> length (edgesState (fst x)) = length (edgesState s)
       \<and> length (regionalState (fst x)) = length (regionalState s)"
  have "?P (s1, n)"
  proof (rule forEach_invariant [where P = ?P, OF fe])
    show "?P (s, 0)" by (simp add: sameControl_def)
  next
    fix i x y assume p: "?P x" and st: "processInvalidation cfg now i x = Inr y"
    obtain sx ax sy ay where x: "x = (sx, ax)" and y: "y = (sy, ay)" by (cases x, cases y) auto
    from st x y have st': "processInvalidation cfg now i (sx, ax) = Inr (sy, ay)" by simp
    from processInvalidation_control [OF st'] p x y
    show "?P y" by (simp add: sameControl_def)
  qed
  with s' show ?thesis by (simp add: sameControl_def)
qed

subsection \<open>The request state machine\<close>

lemma renderFrame_requests:
  assumes "renderFrame cfg now clock s = Inr s'" and "requests s \<noteq> []"
  obtains s2 a where "processRequests cfg now s = Inr (s2, a)" "requests s' = requests s2"
proof -
  from assms(1) obtain s1 s2 a s3 b where
    s1: "(if requests s = [] \<and> \<not> isFinished s \<and> invalidations s = []
          then setupRun cfg clock s else Inr s) = Inr s1"
    and s2: "processRequests cfg now s1 = Inr (s2, a)"
    and s3: "processInvalidations cfg now s2 = Inr (s3, b)"
    and s': "s' = endFrame (a + b) s3"
    by (rule renderFrame_unfold)
  from s1 assms(2) have "s1 = s" by simp
  moreover from s' processInvalidations_control [OF s3] have "requests s' = requests s2"
    by (simp add: endFrame_fields)
  ultimately show thesis using s2 that by simp
qed

text \<open>
  Claim C2: in every frame, every request either keeps its state or moves to a successor
  of its state in the chain of the specification (\<open>chain_succ\<close>): an edge hit returns
  straight to \<open>done\<close>, a regional hit goes on to store at the edge.
\<close>

theorem request_state_follows_chain:
  assumes "renderFrame cfg now clock s = Inr s'" and "i < length (requests s)"
  shows "i < length (requests s')
       \<and> (req_state (requests s' ! i) = req_state (requests s ! i)
          \<or> req_state (requests s' ! i) \<in> set (chain_succ (req_state (requests s ! i))))"
proof -
  from assms(2) have ne: "requests s \<noteq> []" by auto
  from assms(1) ne obtain s2 a where
    pr: "processRequests cfg now s = Inr (s2, a)" and eq: "requests s' = requests s2"
    by (rule renderFrame_requests)
  from processRequests_control [OF pr] processRequests_chain [OF pr assms(2)] eq assms(2)
  show ?thesis by (simp add: chain_step_def)
qed

theorem request_state_follows_chain_witness:
  "req_state (requests exStarted ! 0) = Pending
   \<and> req_state (requests (projr (renderFrame ANIM_CONFIG 0 0 exStarted)) ! 0) = Traveling_to_edge
   \<and> Traveling_to_edge \<in> set (chain_succ Pending)
   \<and> 0 < length (requests (projr (renderFrame ANIM_CONFIG 0 0 exStarted)))"
proof -
  have e: "renderFrame ANIM_CONFIG 0 0 exStarted
             = Inr (projr (renderFrame ANIM_CONFIG 0 0 exStarted))"
    by (simp add: ex_defs eval_defs)
  have i: "0 < length (requests exStarted)" by (simp add: ex_defs)
  from request_state_follows_chain [OF e i] show ?thesis
    by (simp add: ex_defs eval_defs)
qed

subsection \<open>The normalized progress\<close>

lemma getDurationForState_positive: "0 < getDurationForState ANIM_CONFIG st"
  by (cases st) (simp_all add: ANIM_CONFIG_def)

lemma progress_bounds:
  assumes "0 < dur"
  shows "le1 (progress now since dur) \<and> (since \<le> now \<longrightarrow> ge0 (progress now since dur))"
  using assms by (simp add: progress_def js_div_def)

text \<open>
  Claim C7, as amended: the progress \<open>t\<close> computed for a request (over the duration of
  its state in the shipped configuration) and for an invalidation event (over its
  positive duration) never exceeds 1, however much time has elapsed; it is not negative
  whenever the frame time \<open>now\<close> is not earlier than the time stamp the progress is
  measured from.
\<close>

theorem progress_in_unit_interval:
  "le1 (progress now (t0 req) (getDurationForState ANIM_CONFIG (req_state req)))
   \<and> (t0 req \<le> now \<longrightarrow>
        ge0 (progress now (t0 req) (getDurationForState ANIM_CONFIG (req_state req))))
   \<and> (0 < duration iv \<longrightarrow>
        le1 (progress now (startTime iv) (duration iv))
        \<and> (startTime iv \<le> now \<longrightarrow> ge0 (progress now (startTime iv) (duration iv))))"
  using progress_bounds [OF getDurationForState_positive] progress_bounds
  by blast

theorem progress_in_unit_interval_witness:
  "progress 50000 (t0 (exReq 0 (Num 0) Traveling_to_edge 0))
     (getDurationForState ANIM_CONFIG (req_state (exReq 0 (Num 0) Traveling_to_edge 0))) = Num 1
   \<and> progress 700 (t0 (exReq 0 (Num 0) Traveling_to_edge 0))
     (getDurationForState ANIM_CONFIG (req_state (exReq 0 (Num 0) Traveling_to_edge 0))) = Num (1 / 2)
   \<and> le1 (progress 23400 23000 800) \<and> ge0 (progress 23400 23000 800)"
  using progress_in_unit_interval
          [of 50000 "exReq 0 (Num 0) Traveling_to_edge 0"
              "\<lparr> inv_type = Regional, targetIndex = 0, startTime = 23000, duration = 800,
                 inv_state = Traveling \<rparr>"]
        progress_in_unit_interval
          [of 23400 "exReq 0 (Num 0) Traveling_to_edge 0"
              "\<lparr> inv_type = Regional, targetIndex = 0, startTime = 23000, duration = 800,
                 inv_state = Traveling \<rparr>"]
  by (simp add: exReq_def progress_def js_div_def ANIM_CONFIG_def)

text \<open>
  Claim C7 as stated fails for the lower bound: there is no \<open>Math.max(0, ...)\<close>. An
  invalidation created by \<open>invalidateAllCaches\<close> at clock reading 23016 and processed by
  a frame whose time stamp is 23000 has a negative progress.
\<close>

theorem progress_negative_counterexample:
  "startTime (hd (invalidations (projr (invalidateAllCaches ANIM_CONFIG 23016 exWarm)))) = 23016
   \<and> duration (hd (invalidations (projr (invalidateAllCaches ANIM_CONFIG 23016 exWarm)))) = 800
   \<and> inv_state (hd (invalidations (projr (invalidateAllCaches ANIM_CONFIG 23016 exWarm))))
       = Traveling
   \<and> progress 23000
        (startTime (hd (invalidations (projr (invalidateAllCaches ANIM_CONFIG 23016 exWarm)))))
        (duration (hd (invalidations (projr (invalidateAllCaches ANIM_CONFIG 23016 exWarm)))))
       = Num (- (1 / 50))
   \<and> \<not> ge0 (progress 23000
        (startTime (hd (invalidations (projr (invalidateAllCaches ANIM_CONFIG 23016 exWarm)))))
        (duration (hd (invalidations (projr (invalidateAllCaches ANIM_CONFIG 23016 exWarm))))))"
  by (simp add: ex_defs eval_defs)

subsection \<open>Invalidating with nothing cached\<close>

lemma invalidationsFor_none:
  assumes "\<not> list_ex cached ns"
  shows "invalidationsFor ty now dur ns = []"
proof -
  have "\<forall>i\<in>set [0 ..< length ns]. \<not> cached (ns ! i)"
    using assms by (auto simp: list_ex_iff)
  then have "filter (\<lambda>i. cached (ns ! i)) [0 ..< length ns] = []"
    by (simp only: filter_False)
  then show ?thesis by (simp add: invalidationsFor_def)
qed

text \<open>
  Claim C4, as amended: when no edge and no regional node is cached,
  \<open>invalidateAllCaches\<close> enqueues no invalidation event; it leaves the state unchanged
  when the loop is playing, and when the loop is paused it clears \<open>isFinished\<close> and
  resumes the loop (unless a frame is already requested or the animator is destroyed).
\<close>

theorem invalidate_with_nothing_cached:
  assumes "\<not> list_ex cached (edgesState s)" and "\<not> list_ex cached (regionalState s)"
  shows "\<exists>s'. invalidateAllCaches cfg now s = Inr s'
           \<and> invalidations s' = invalidations s
           \<and> s' = (if isPlaying s then s
                    else if rafId s \<noteq> None \<or> destroyed s then s\<lparr> isFinished := False \<rparr>
                    else s\<lparr> isFinished := False, isPlaying := True, rafId := Some Handle \<rparr>)"
  using assms
  by (simp add: invalidateAllCaches_def Let_def invalidationsFor_none)

theorem invalidate_with_nothing_cached_witness:
  "invalidateAllCaches ANIM_CONFIG 50 exStarted = Inr exStarted
   \<and> invalidateAllCaches ANIM_CONFIG 50 (pauseLoop exStarted)
       = Inr ((pauseLoop exStarted)\<lparr> isFinished := False, isPlaying := True,
                                     rafId := Some Handle \<rparr>)"
proof -
  have a: "\<not> list_ex cached (edgesState exStarted)"
    and b: "\<not> list_ex cached (regionalState exStarted)"
    and c: "\<not> list_ex cached (edgesState (pauseLoop exStarted))"
    and d: "\<not> list_ex cached (regionalState (pauseLoop exStarted))"
    by (simp_all add: ex_defs pauseLoop_def)
  from invalidate_with_nothing_cached [OF a b, of ANIM_CONFIG 50]
    invalidate_with_nothing_cached [OF c d, of ANIM_CONFIG 50]
  show ?thesis by (simp add: ex_defs pauseLoop_def)
qed

text \<open>
  Claim C4 as stated fails when the loop is paused: with nothing cached, the call still
  clears \<open>isFinished\<close> and starts the loop.
\<close>

theorem invalidate_paused_counterexample:
  "\<not> list_ex cached (edgesState (pauseLoop exStarted))
   \<and> \<not> list_ex cached (regionalState (pauseLoop exStarted))
   \<and> \<not> isPlaying (pauseLoop exStarted)
   \<and> rafId (pauseLoop exStarted) = None
   \<and> invalidateAllCaches ANIM_CONFIG 50 (pauseLoop exStarted) \<noteq> Inr (pauseLoop exStarted)
   \<and> isPlaying (projr (invalidateAllCaches ANIM_CONFIG 50 (pauseLoop exStarted)))
   \<and> rafId (projr (invalidateAllCaches ANIM_CONFIG 50 (pauseLoop exStarted))) = Some Handle"
  by (simp add: ex_defs eval_defs)

subsection \<open>What the controls leave alone\<close>

declare startLoop.simps [simp del] restart.simps [simp del]

lemma sameCaches_refl: "sameCaches s s"
  by (simp add: sameCaches_def)

lemma sameCaches_trans: "sameCaches s s1 \<Longrightarrow> sameCaches s1 s2 \<Longrightarrow> sameCaches s s2"
  by (simp add: sameCaches_def)

lemma setupRun_sameCaches:
  assumes "setupRun cfg clock s = Inr s'"
  shows "sameCaches s s' \<and> invalidations s' = invalidations s"
  using setupRun_fields [OF assms] by (simp add: sameCaches_def)

lemma pauseLoop_sameCaches:
  "sameCaches s (pauseLoop s) \<and> invalidations (pauseLoop s) = invalidations s
   \<and> requests (pauseLoop s) = requests s"
  by (simp add: pauseLoop_def sameCaches_def)

lemma startLoop_cases:
  assumes "startLoop cfg clock s = Inr s'"
  shows "s' = s
       \<or> (rafId s = None \<and> \<not> destroyed s \<and> \<not> isFinished s
          \<and> s' = s\<lparr> isPlaying := True, rafId := Some Handle \<rparr>)
       \<or> (rafId s = None \<and> \<not> destroyed s \<and> isFinished s \<and> restart cfg clock s = Inr s')"
proof (cases "rafId s \<noteq> None \<or> destroyed s")
  case True
  with assms have "s' = s" by (simp add: startLoop.simps [of cfg clock s])
  then show ?thesis by simp
next
  case False
  show ?thesis
  proof (cases "isFinished s")
    case True
    with False assms have "restart cfg clock s = Inr s'"
      by (simp add: startLoop.simps [of cfg clock s])
    with False True show ?thesis by simp
  next
    case f: False
    with False assms have "s' = s\<lparr> isPlaying := True, rafId := Some Handle \<rparr>"
      by (simp add: startLoop.simps [of cfg clock s])
    with False f show ?thesis by simp
  qed
qed

lemma restart_unfold:
  assumes "restart cfg clock s = Inr s'"
  obtains s1 where
    "setupRun cfg clock (s\<lparr> runIndex := 0, isFinished := False, replayTimer := None \<rparr>) = Inr s1"
    "s' = s1 \<or> s' = s1\<lparr> isPlaying := True, rafId := Some Handle \<rparr>"
proof -
  from assms obtain s1 where
    s1: "setupRun cfg clock (s\<lparr> runIndex := 0, isFinished := False, replayTimer := None \<rparr>)
           = Inr s1"
    and sl: "startLoop cfg clock s1 = Inr s'"
    by (auto simp: restart.simps split: sum.splits)
  from setupRun_fields [OF s1] have "\<not> isFinished s1" by simp
  with startLoop_cases [OF sl]
  have "s' = s1 \<or> s' = s1\<lparr> isPlaying := True, rafId := Some Handle \<rparr>"
    by blast
  with s1 that show thesis by blast
qed

lemma restart_sameCaches:
  assumes "restart cfg clock s = Inr s'"
  shows "sameCaches s s' \<and> invalidations s' = invalidations s"
proof -
  from assms obtain s1 where
    s1: "setupRun cfg clock (s\<lparr> runIndex := 0, isFinished := False, replayTimer := None \<rparr>)
           = Inr s1"
    and s': "s' = s1 \<or> s' = s1\<lparr> isPlaying := True, rafId := Some Handle \<rparr>"
    by (rule restart_unfold)
  from setupRun_sameCaches [OF s1] s' show ?thesis by (auto simp: sameCaches_def)
qed

lemma startLoop_sameCaches:
  assumes "startLoop cfg clock s = Inr s'"
  shows "sameCaches s s' \<and> invalidations s' = invalidations s"
proof -
  from startLoop_cases [OF assms]
  consider "s' = s" | "s' = s\<lparr> isPlaying := True, rafId := Some Handle \<rparr>"
    | "restart cfg clock s = Inr s'"
    by blast
  then show ?thesis
  proof cases
    case 1
    then show ?thesis by (simp add: sameCaches_def)
  next
    case 2
    then show ?thesis by (simp add: sameCaches_def)
  next
    case 3
    then show ?thesis by (rule restart_sameCaches)
  qed
qed

lemma startLoop_unfinished:
  assumes "startLoop cfg clock s = Inr s'" and "\<not> isFinished s"
  shows "s' = s \<or> s' = s\<lparr> isPlaying := True, rafId := Some Handle \<rparr>"
  using startLoop_cases [OF assms(1)] assms(2) by blast

lemma replayCallback_sameCaches:
  assumes "replayCallback cfg clock s = Inr s'"
  shows "sameCaches s s' \<and> invalidations s' = invalidations s"
proof -
  from assms obtain s1 where s1: "setupRun cfg clock s = Inr s1"
    and sl: "startLoop cfg clock s1 = Inr s'"
    unfolding replayCallback_def by (auto split: sum.splits)
  from setupRun_sameCaches [OF s1] startLoop_sameCaches [OF sl]
  show ?thesis by (auto simp: sameCaches_def)
qed

lemma onPlayPauseClick_sameCaches:
  assumes "onPlayPauseClick cfg clock s = Inr s'"
  shows "sameCaches s s' \<and> invalidations s' = invalidations s"
  using assms pauseLoop_sameCaches [of s] startLoop_sameCaches [of cfg clock s s']
  by (auto simp: onPlayPauseClick_def split: if_splits)

lemma invalidateAllCaches_sameCaches:
  assumes "invalidateAllCaches cfg now s = Inr s'"
  shows "sameCaches s s' \<and> requests s' = requests s"
proof (cases "isPlaying s")
  case True
  with assms show ?thesis by (auto simp: invalidateAllCaches_def Let_def sameCaches_def)
next
  case False
  define s1 where "s1 = s\<lparr> invalidations :=
      invalidations s @ invalidationsFor Regional now 800 (regionalState s)
      @ invalidationsFor Edge now (800 + 400) (edgesState s), isFinished := False \<rparr>"
  from assms False have "startLoop cfg now s1 = Inr s'"
    by (simp add: invalidateAllCaches_def Let_def s1_def)
  moreover have "\<not> isFinished s1" by (simp add: s1_def)
  ultimately have "s' = s1 \<or> s' = s1\<lparr> isPlaying := True, rafId := Some Handle \<rparr>"
    by (rule startLoop_unfinished)
  then show ?thesis by (auto simp: sameCaches_def s1_def)
qed

lemma clickUser_sameCaches:
  assumes "clickUser cfg clickX clickY clock i s = Inr s'"
  shows "sameCaches s s' \<and> invalidations s' = invalidations s"
proof -
  let ?u = "users (layout s) ! i"
  let ?new = "\<lparr> userIndex = i, edgeIndex = assignedEdgeIndex ?u,
      regionalIndex = js_index (edgesToRegional (layout s)) (assignedEdgeIndex ?u),
      startAt = Num clock, req_state = Pending, t0 = 0 \<rparr>"
  let ?s1 = "s\<lparr> requests := requests s @ [?new] \<rparr>"
  from assms have "s' = s \<or> s' = ?s1
      \<or> startLoop cfg clock (?s1\<lparr> isFinished := False \<rparr>) = Inr s'"
    by (simp add: clickUser_def Let_def split: if_splits)
  then consider "s' = s" | "s' = ?s1"
    | "startLoop cfg clock (?s1\<lparr> isFinished := False \<rparr>) = Inr s'"
    by blast
  then show ?thesis
  proof cases
    case 1
    then show ?thesis by (simp add: sameCaches_def)
  next
    case 2
    then show ?thesis by (simp add: sameCaches_def)
  next
    case 3
    from startLoop_unfinished [OF 3] show ?thesis by (auto simp: sameCaches_def)
  qed
qed

lemma onCanvasClick_sameCaches:
  assumes "onCanvasClick cfg clickX clickY clock s = Inr s'"
  shows "sameCaches s s' \<and> invalidations s' = invalidations s"
proof (cases "destroyed s")
  case True
  with assms show ?thesis by (simp add: onCanvasClick_def sameCaches_def)
next
  case False
  with assms have fe:
    "forEach (clickUser cfg clickX clickY clock) [0 ..< length (users (layout s))] s = Inr s'"
    by (simp add: onCanvasClick_def)
  show ?thesis
  proof (rule forEach_invariant
      [where P = "\<lambda>x. sameCaches s x \<and> invalidations x = invalidations s", OF fe])
    show "sameCaches s s \<and> invalidations s = invalidations s" by (simp add: sameCaches_def)
  next
    fix i x y
    assume "sameCaches s x \<and> invalidations x = invalidations s"
      and "clickUser cfg clickX clickY clock i x = Inr y"
    with clickUser_sameCaches [of cfg clickX clickY clock i x y]
    show "sameCaches s y \<and> invalidations y = invalidations s"
      by (auto simp: sameCaches_def)
  qed
qed


lemma sizeCanvas_fields:
  assumes "sizeCanvas cfg rectWidth rectHeight s = Inr s'"
  shows "destroyed s' = destroyed s \<and> requests s' = requests s
       \<and> invalidations s' = invalidations s \<and> rafId s' = rafId s
       \<and> isPlaying s' = isPlaying s \<and> isFinished s' = isFinished s
       \<and> runIndex s' = runIndex s \<and> replayTimer s' = replayTimer s"
  using assms
  by (auto simp: sizeCanvas_def calculateLayoutPositions_def Let_def split: if_splits)

lemma renderFrame_fields:
  assumes "renderFrame cfg now clock s = Inr s'"
  shows "destroyed s' = destroyed s \<and> layout s' = layout s
       \<and> width s' = width s \<and> height s' = height s
       \<and> length (edgesState s') = length (edgesState s)
       \<and> length (regionalState s') = length (regionalState s)"
proof -
  from assms obtain s1 s2 a s3 b where
    s1: "(if requests s = [] \<and> \<not> isFinished s \<and> invalidations s = []
          then setupRun cfg clock s else Inr s) = Inr s1"
    and s2: "processRequests cfg now s1 = Inr (s2, a)"
    and s3: "processInvalidations cfg now s2 = Inr (s3, b)"
    and s': "s' = endFrame (a + b) s3"
    by (rule renderFrame_unfold)
  have "sameCaches s s1"
    using s1 setupRun_sameCaches [of cfg clock s s1] by (auto simp: sameCaches_def split: if_splits)
  with processRequests_control [OF s2] processInvalidations_control [OF s3] s'
  show ?thesis by (simp add: sameCaches_def sameControl_def endFrame_fields)
qed

lemma clearCache_fields:
  assumes "clearCache cfg now clock s = Inr s'"
  shows "destroyed s' = destroyed s \<and> layout s' = layout s
       \<and> width s' = width s \<and> height s' = height s
       \<and> length (edgesState s') = length (edgesState s)
       \<and> length (regionalState s') = length (regionalState s)"
proof -
  define s1 where "s1 = s\<lparr> edgesState := map (\<lambda>e. e\<lparr> cached := False \<rparr>) (edgesState s),
      regionalState := map (\<lambda>r. r\<lparr> cached := False \<rparr>) (regionalState s),
      replayTimer := None, isFinished := True \<rparr>"
  from assms have "renderFrame cfg now clock s1 = Inr s'"
    by (simp add: clearCache_def Let_def s1_def split: if_splits)
  from renderFrame_fields [OF this] show ?thesis by (simp add: s1_def)
qed

subsection \<open>After \<open>destroy()\<close>\<close>

lemma step_destroyed:
  assumes "step cfg ev s = Inr s'" and "destroyed s"
  shows "destroyed s'"
proof (cases ev)
  case (Start rw rh clock)
  with assms(1) obtain s1 s2 where "sizeCanvas cfg rw rh s = Inr s1"
    and "setupRun cfg clock s1 = Inr s2" and "startLoop cfg clock s2 = Inr s'"
    by (auto simp: start_def split: sum.splits)
  with sizeCanvas_fields [of cfg rw rh s s1] setupRun_fields [of cfg clock s1 s2]
    startLoop_sameCaches [of cfg clock s2 s'] assms(2)
  show ?thesis by (simp add: sameCaches_def)
next
  case (Frame now clock)
  with assms renderFrame_fields [of cfg now clock s s'] show ?thesis by simp
next
  case (Play clock)
  with assms startLoop_sameCaches [of cfg clock s s'] show ?thesis by (simp add: sameCaches_def)
next
  case Pause
  with assms show ?thesis by (auto simp: pauseLoop_def)
next
  case (Restart clock)
  with assms restart_sameCaches [of cfg clock s s'] show ?thesis by (simp add: sameCaches_def)
next
  case (ClearCache now clock)
  with assms clearCache_fields [of cfg now clock s s'] show ?thesis by simp
next
  case (Invalidate now)
  with assms invalidateAllCaches_sameCaches [of cfg now s s'] show ?thesis
    by (simp add: sameCaches_def)
next
  case Destroy
  with assms show ?thesis by (auto simp: destroy_def pauseLoop_def)
next
  case (CanvasClick cx cy clock)
  with assms onCanvasClick_sameCaches [of cfg cx cy clock s s'] show ?thesis
    by (simp add: sameCaches_def)
next
  case (PlayPauseClick clock)
  with assms onPlayPauseClick_sameCaches [of cfg clock s s'] show ?thesis
    by (simp add: sameCaches_def)
next
  case (ClearCacheClick now clock)
  with assms(1) obtain s1 where "clearCache cfg now clock s = Inr s1"
    and "restart cfg clock s1 = Inr s'"
    by (auto simp: onClearCacheClick_def split: sum.splits)
  with clearCache_fields [of cfg now clock s s1] restart_sameCaches [of cfg clock s1 s']
    assms(2)
  show ?thesis by (simp add: sameCaches_def)
next
  case (Resize rw rh now clock)
  with assms(1) obtain s1 where s1: "sizeCanvas cfg rw rh s = Inr s1"
    and r: "(if \<not> isPlaying s1 then renderFrame cfg now clock s1 else Inr s1) = Inr s'"
    by (auto simp: onResize_def split: sum.splits)
  from r renderFrame_fields [of cfg now clock s1 s'] have "destroyed s' = destroyed s1"
    by (auto split: if_splits)
  with sizeCanvas_fields [OF s1] assms(2) show ?thesis by simp
next
  case (ReplayTimer clock)
  with assms replayCallback_sameCaches [of cfg clock s s'] show ?thesis
    by (simp add: sameCaches_def)
qed

lemma run_destroyed:
  assumes "run cfg evs s = Inr s'" and "destroyed s"
  shows "destroyed s'"
  using assms
proof (induction evs arbitrary: s)
  case Nil
  then show ?case by simp
next
  case (Cons ev evs)
  from Cons.prems(1) obtain s1 where "step cfg ev s = Inr s1" and "run cfg evs s1 = Inr s'"
    by (auto split: sum.splits)
  with Cons.IH step_destroyed Cons.prems(2) show ?case by blast
qed

text \<open>
  The guards that read the flag: \<open>destroy()\<close> sets the \<open>destroyed\<close> flag and cancels
  the requested frame; the flag stays set whatever is called afterwards; and in a
  destroyed animator every call of \<open>play()\<close> (\<open>startLoop\<close>) and of \<open>onCanvasClick\<close>
  returns at once, leaving the state as it is, so that neither of them requests a frame.
\<close>

theorem destroyed_gates_play_and_click:
  "destroyed (destroy s) \<and> rafId (destroy s) = None
   \<and> (run cfg evs (destroy s) = Inr s' \<longrightarrow> destroyed s')
   \<and> (destroyed s \<longrightarrow>
        startLoop cfg clock s = Inr s \<and> onCanvasClick cfg clickX clickY clock s = Inr s)"
proof -
  have "destroyed (destroy s)" "rafId (destroy s) = None"
    by (simp_all add: destroy_def pauseLoop_def)
  moreover have "run cfg evs (destroy s) = Inr s' \<longrightarrow> destroyed s'"
    using run_destroyed [of cfg evs "destroy s" s'] calculation(1) by blast
  moreover have "destroyed s \<longrightarrow> startLoop cfg clock s = Inr s"
    by (simp add: startLoop.simps [of cfg clock s])
  moreover have "destroyed s \<longrightarrow> onCanvasClick cfg clickX clickY clock s = Inr s"
    by (simp add: onCanvasClick_def)
  ultimately show ?thesis by blast
qed

theorem destroyed_gates_play_and_click_witness:
  "destroyed (destroy exStarted)
   \<and> destroyed (projr (run ANIM_CONFIG [Play 10, CanvasClick 64 108 20, Restart 30]
                         (destroy exStarted)))
   \<and> startLoop ANIM_CONFIG 10 (destroy exStarted) = Inr (destroy exStarted)
   \<and> onCanvasClick ANIM_CONFIG 64 108 10 (destroy exStarted) = Inr (destroy exStarted)"
proof -
  have r: "run ANIM_CONFIG [Play 10, CanvasClick 64 108 20, Restart 30] (destroy exStarted)
        = Inr (projr (run ANIM_CONFIG [Play 10, CanvasClick 64 108 20, Restart 30]
                        (destroy exStarted)))"
    by (simp add: ex_defs eval_defs startLoop.simps restart.simps)
  have d: "destroyed (destroy exStarted)" by (simp add: destroy_def pauseLoop_def)
  from destroyed_gates_play_and_click
         [of exStarted ANIM_CONFIG "[Play 10, CanvasClick 64 108 20, Restart 30]"
             "projr (run ANIM_CONFIG [Play 10, CanvasClick 64 108 20, Restart 30]
                       (destroy exStarted))" 10 64 108]
       destroyed_gates_play_and_click
         [of "destroy exStarted" ANIM_CONFIG "[]" "destroy (destroy exStarted)" 10 64 108]
       r d
  show ?thesis by simp
qed

text \<open>
  Claim C10 (no animation frame is scheduled after destruction) against the code:
  \<open>startLoop\<close> and \<open>onCanvasClick\<close> read the \<open>destroyed\<close> flag, \<open>renderFrame\<close> does not.
  On the animator that \<open>start()\<close> and then \<open>destroy()\<close> leave, no frame is requested;
  the callback of the resize timer, which \<open>destroy()\<close> does not clear, and a call of
  \<open>clearCache()\<close> each run a frame there, and that frame finds the first request active
  and requests the next one, in an animator whose flag is set.
\<close>

theorem frame_requested_after_destroy:
  "start ANIM_CONFIG 800 420 0 initialState = Inr exStarted
   \<and> destroyed (destroy exStarted) \<and> rafId (destroy exStarted) = None
   \<and> \<not> isl (onResize ANIM_CONFIG 800 420 20 20 (destroy exStarted))
   \<and> destroyed (projr (onResize ANIM_CONFIG 800 420 20 20 (destroy exStarted)))
   \<and> rafId (projr (onResize ANIM_CONFIG 800 420 20 20 (destroy exStarted))) = Some Handle
   \<and> \<not> isl (clearCache ANIM_CONFIG 20 20 (destroy exStarted))
   \<and> destroyed (projr (clearCache ANIM_CONFIG 20 20 (destroy exStarted)))
   \<and> rafId (projr (clearCache ANIM_CONFIG 20 20 (destroy exStarted))) = Some Handle"
  by (simp add: ex_defs eval_defs startLoop.simps)

subsection \<open>Who writes the \<open>cached\<close> flags\<close>

lemma exRegionalWarm_reachable:
  "run ANIM_CONFIG (take 5 firstRun) exStarted = Inr exRegionalWarm"
  by (simp add: firstRun_def exRegionalWarm_def ex_defs eval_defs)

lemma cachedAt_setCached:
  "cachedAt (setCached v i ns) j = (if j = i \<and> i < length ns then v else cachedAt ns j)"
  by (auto simp: cachedAt_def setCached_def nth_opt_def)

lemma hasNodes_edge:
  assumes "hasNodes s r"
  shows "0 \<le> edgeIndex r \<and> nat (edgeIndex r) < length (edgesState s)
       \<and> (\<exists>ri. regionalIndex r = Some ri \<and> ri < length (regionalState s))"
  using assms
  by (auto simp: hasNodes_def js_index_def nth_opt_def split: if_splits option.splits)

lemma processRequests_flags:
  assumes "processRequests cfg now s = Inr (s', n)"
  shows "(cachedAt (edgesState s) j \<longrightarrow> cachedAt (edgesState s') j)
       \<and> (cachedAt (edgesState s') j \<and> \<not> cachedAt (edgesState s) j \<longrightarrow> edgeStoreDue cfg now s j)
       \<and> (cachedAt (regionalState s) j \<longrightarrow> cachedAt (regionalState s') j)
       \<and> (cachedAt (regionalState s') j \<and> \<not> cachedAt (regionalState s) j
            \<longrightarrow> regionalStoreDue cfg now s j)"
proof -
  let ?E = "\<lambda>s i. req_state (requests s ! i) = Storing_edge \<and> edgeIndex (requests s ! i) = int j
      \<and> ge1 (progress now (t0 (requests s ! i)) (cacheStoreMs cfg))"
  let ?R = "\<lambda>s i. req_state (requests s ! i) = Storing_regional
      \<and> regionalIndex (requests s ! i) = Some j
      \<and> ge1 (progress now (t0 (requests s ! i)) (cacheStoreMs cfg))"
  let ?P = "\<lambda>is s (a::nat) s' (a'::nat).
      (cachedAt (edgesState s) j \<longrightarrow> cachedAt (edgesState s') j)
      \<and> (cachedAt (edgesState s') j \<and> \<not> cachedAt (edgesState s) j \<longrightarrow> (\<exists>i\<in>set is. ?E s i))
      \<and> (cachedAt (regionalState s) j \<longrightarrow> cachedAt (regionalState s') j)
      \<and> (cachedAt (regionalState s') j \<and> \<not> cachedAt (regionalState s) j
           \<longrightarrow> (\<exists>i\<in>set is. ?R s i))"
  from assms have "?P [0 ..< length (requests s)] s 0 s' n"
  proof (induction rule: processRequests_induct)
    case Nil
    then show ?case by simp
  next
    case (Cons i "is" s a s1 a1 s' a')
    have same: "\<And>k. k \<in> set is \<Longrightarrow> ?E s1 k = ?E s k" "\<And>k. k \<in> set is \<Longrightarrow> ?R s1 k = ?R s k"
      using Cons(4) by simp_all
    have e1: "(cachedAt (edgesState s) j \<longrightarrow> cachedAt (edgesState s1) j)
        \<and> (cachedAt (edgesState s1) j \<and> \<not> cachedAt (edgesState s) j \<longrightarrow> ?E s i)"
      using processRequest_edges [OF Cons(1)] hasNodes_edge [of s "requests s ! i"]
      by (auto simp: cachedAt_setCached split: if_splits)
    have r1: "(cachedAt (regionalState s) j \<longrightarrow> cachedAt (regionalState s1) j)
        \<and> (cachedAt (regionalState s1) j \<and> \<not> cachedAt (regionalState s) j \<longrightarrow> ?R s i)"
      using processRequest_regionals [OF Cons(1)] hasNodes_edge [of s "requests s ! i"]
      by (auto simp: cachedAt_setCached split: if_splits)
    from Cons(7) have ih_e: "cachedAt (edgesState s1) j \<longrightarrow> cachedAt (edgesState s') j"
      and ih_e2: "cachedAt (edgesState s') j \<and> \<not> cachedAt (edgesState s1) j
            \<longrightarrow> (\<exists>k\<in>set is. ?E s1 k)"
      and ih_r: "cachedAt (regionalState s1) j \<longrightarrow> cachedAt (regionalState s') j"
      and ih_r2: "cachedAt (regionalState s') j \<and> \<not> cachedAt (regionalState s1) j
            \<longrightarrow> (\<exists>k\<in>set is. ?R s1 k)"
      by blast+
    have "cachedAt (edgesState s') j \<and> \<not> cachedAt (edgesState s) j
            \<longrightarrow> (\<exists>k\<in>set (i # is). ?E s k)"
    proof (intro impI)
      assume h: "cachedAt (edgesState s') j \<and> \<not> cachedAt (edgesState s) j"
      show "\<exists>k\<in>set (i # is). ?E s k"
      proof (cases "cachedAt (edgesState s1) j")
        case True
        with h e1 show ?thesis by simp
      next
        case False
        with h ih_e2 obtain k where "k \<in> set is" "?E s1 k" by blast
        with same(1) show ?thesis by auto
      qed
    qed
    moreover have "cachedAt (regionalState s') j \<and> \<not> cachedAt (regionalState s) j
            \<longrightarrow> (\<exists>k\<in>set (i # is). ?R s k)"
    proof (intro impI)
      assume h: "cachedAt (regionalState s') j \<and> \<not> cachedAt (regionalState s) j"
      show "\<exists>k\<in>set (i # is). ?R s k"
      proof (cases "cachedAt (regionalState s1) j")
        case True
        with h r1 show ?thesis by simp
      next
        case False
        with h ih_r2 obtain k where "k \<in> set is" "?R s1 k" by blast
        with same(2) show ?thesis by auto
      qed
    qed
    ultimately show ?case using e1 r1 ih_e ih_r by blast
  qed
  then show ?thesis
    by (auto simp: edgeStoreDue_def regionalStoreDue_def list_ex_length)
qed


lemma forEach_processInvalidation_induct [consumes 3, case_names Nil Cons]:
  assumes run: "forEach (processInvalidation cfg now) is (s, a) = Inr (s', a')"
    and dist: "distinct is"
    and bound: "\<forall>i\<in>set is. i < length (invalidations s)"
    and nil: "\<And>s a. P [] s a s a"
    and cons: "\<And>i is s a s1 a1 s' a'.
        \<lbrakk> processInvalidation cfg now i (s, a) = Inr (s1, a1); i < length (invalidations s);
          i \<notin> set is; \<forall>k\<in>set is. invalidations s1 ! k = invalidations s ! k;
          forEach (processInvalidation cfg now) is (s1, a1) = Inr (s', a');
          P is s1 a1 s' a' \<rbrakk> \<Longrightarrow> P (i # is) s a s' a'"
  shows "P is s a s' a'"
  using run dist bound
proof (induction "is" arbitrary: s a)
  case Nil
  then show ?case by (simp add: nil)
next
  case (Cons i "is")
  from Cons.prems(1) obtain s1 a1 where
    st: "processInvalidation cfg now i (s, a) = Inr (s1, a1)"
    and rest: "forEach (processInvalidation cfg now) is (s1, a1) = Inr (s', a')"
    by (auto split: sum.splits)
  have len: "length (invalidations s1) = length (invalidations s)"
    using processInvalidation_control [OF st] by simp
  have oth: "\<forall>k\<in>set is. invalidations s1 ! k = invalidations s ! k"
  proof
    fix k assume "k \<in> set is"
    with Cons.prems(2) have "k \<noteq> i" by auto
    then show "invalidations s1 ! k = invalidations s ! k"
      by (rule processInvalidation_other [OF st])
  qed
  have ih: "P is s1 a1 s' a'"
    using Cons.IH [OF rest] Cons.prems(2,3) len by simp
  have i: "i < length (invalidations s)" "i \<notin> set is" using Cons.prems(2,3) by simp_all
  show ?case by (rule cons [OF st i(1) i(2) oth rest ih])
qed

lemma processInvalidations_induct [consumes 1, case_names Nil Cons]:
  assumes run: "forEach (processInvalidation cfg now) [0 ..< length (invalidations s)] (s, 0)
                  = Inr (s', n)"
    and nil: "\<And>s a. P [] s a s a"
    and cons: "\<And>i is s a s1 a1 s' a'.
        \<lbrakk> processInvalidation cfg now i (s, a) = Inr (s1, a1); i < length (invalidations s);
          i \<notin> set is; \<forall>k\<in>set is. invalidations s1 ! k = invalidations s ! k;
          forEach (processInvalidation cfg now) is (s1, a1) = Inr (s', a');
          P is s1 a1 s' a' \<rbrakk> \<Longrightarrow> P (i # is) s a s' a'"
  shows "P [0 ..< length (invalidations s)] s 0 s' n"
  using run
  by (rule forEach_processInvalidation_induct) (simp_all add: nil cons)

lemma processInvalidations_unfold:
  assumes "processInvalidations cfg now s = Inr (s', n)"
  obtains s1 where
    "forEach (processInvalidation cfg now) [0 ..< length (invalidations s)] (s, 0) = Inr (s1, n)"
    "s' = s1\<lparr> invalidations := filter (\<lambda>v. inv_state v \<noteq> Inv_done) (invalidations s1) \<rparr>"
  using assms unfolding processInvalidations_def by (auto split: sum.splits)

lemma processInvalidations_flags:
  assumes "processInvalidations cfg now s = Inr (s', n)"
  shows "(cachedAt (edgesState s') j \<longrightarrow> cachedAt (edgesState s) j)
       \<and> (cachedAt (edgesState s) j \<and> \<not> cachedAt (edgesState s') j \<longrightarrow> pulseDue now Edge s j)
       \<and> (cachedAt (regionalState s') j \<longrightarrow> cachedAt (regionalState s) j)
       \<and> (cachedAt (regionalState s) j \<and> \<not> cachedAt (regionalState s') j
            \<longrightarrow> pulseDue now Regional s j)"
proof -
  let ?D = "\<lambda>ty s i. inv_state (invalidations s ! i) = Pulsing
      \<and> inv_type (invalidations s ! i) = ty \<and> targetIndex (invalidations s ! i) = j
      \<and> ge1 (progress now (startTime (invalidations s ! i)) (duration (invalidations s ! i)))"
  let ?P = "\<lambda>is s (a::nat) s' (a'::nat).
      (cachedAt (edgesState s') j \<longrightarrow> cachedAt (edgesState s) j)
      \<and> (cachedAt (edgesState s) j \<and> \<not> cachedAt (edgesState s') j \<longrightarrow> (\<exists>i\<in>set is. ?D Edge s i))
      \<and> (cachedAt (regionalState s') j \<longrightarrow> cachedAt (regionalState s) j)
      \<and> (cachedAt (regionalState s) j \<and> \<not> cachedAt (regionalState s') j
           \<longrightarrow> (\<exists>i\<in>set is. ?D Regional s i))"
  from assms obtain s1 where
    fe: "forEach (processInvalidation cfg now) [0 ..< length (invalidations s)] (s, 0)
           = Inr (s1, n)"
    and s': "s' = s1\<lparr> invalidations :=
                filter (\<lambda>v. inv_state v \<noteq> Inv_done) (invalidations s1) \<rparr>"
    by (rule processInvalidations_unfold)
  from fe have "?P [0 ..< length (invalidations s)] s 0 s1 n"
  proof (induction rule: processInvalidations_induct)
    case (Nil s a)
    then show ?case by simp
  next
    case (Cons i "is" s a s1 a1 s' a')
    have same: "\<And>k ty. k \<in> set is \<Longrightarrow> ?D ty s1 k = ?D ty s k"
      using Cons(4) by simp
    have ty: "inv_type (invalidations s ! i) \<noteq> Edge
        \<longleftrightarrow> inv_type (invalidations s ! i) = Regional"
      by (cases "inv_type (invalidations s ! i)") simp_all
    have e1: "(cachedAt (edgesState s1) j \<longrightarrow> cachedAt (edgesState s) j)
        \<and> (cachedAt (edgesState s) j \<and> \<not> cachedAt (edgesState s1) j \<longrightarrow> ?D Edge s i)"
      using processInvalidation_edges [OF Cons(1)]
      by (auto simp: cachedAt_setCached split: if_splits)
    have r1: "(cachedAt (regionalState s1) j \<longrightarrow> cachedAt (regionalState s) j)
        \<and> (cachedAt (regionalState s) j \<and> \<not> cachedAt (regionalState s1) j
             \<longrightarrow> ?D Regional s i)"
      using processInvalidation_regionals [OF Cons(1)] ty
      by (auto simp: cachedAt_setCached split: if_splits)
    from Cons(6) have ih_e: "cachedAt (edgesState s') j \<longrightarrow> cachedAt (edgesState s1) j"
      and ih_e2: "cachedAt (edgesState s1) j \<and> \<not> cachedAt (edgesState s') j
            \<longrightarrow> (\<exists>k\<in>set is. ?D Edge s1 k)"
      and ih_r: "cachedAt (regionalState s') j \<longrightarrow> cachedAt (regionalState s1) j"
      and ih_r2: "cachedAt (regionalState s1) j \<and> \<not> cachedAt (regionalState s') j
            \<longrightarrow> (\<exists>k\<in>set is. ?D Regional s1 k)"
      by blast+
    have "cachedAt (edgesState s) j \<and> \<not> cachedAt (edgesState s') j
            \<longrightarrow> (\<exists>k\<in>set (i # is). ?D Edge s k)"
    proof (intro impI)
      assume h: "cachedAt (edgesState s) j \<and> \<not> cachedAt (edgesState s') j"
      show "\<exists>k\<in>set (i # is). ?D Edge s k"
      proof (cases "cachedAt (edgesState s1) j")
        case False
        with h e1 show ?thesis by simp
      next
        case True
        with h ih_e2 obtain k where "k \<in> set is" "?D Edge s1 k" by blast
        with same show ?thesis by auto
      qed
    qed
    moreover have "cachedAt (regionalState s) j \<and> \<not> cachedAt (regionalState s') j
            \<longrightarrow> (\<exists>k\<in>set (i # is). ?D Regional s k)"
    proof (intro impI)
      assume h: "cachedAt (regionalState s) j \<and> \<not> cachedAt (regionalState s') j"
      show "\<exists>k\<in>set (i # is). ?D Regional s k"
      proof (cases "cachedAt (regionalState s1) j")
        case False
        with h r1 show ?thesis by simp
      next
        case True
        with h ih_r2 obtain k where "k \<in> set is" "?D Regional s1 k" by blast
        with same show ?thesis by auto
      qed
    qed
    ultimately show ?case using e1 r1 ih_e ih_r by blast
  qed
  with s' show ?thesis
    by (auto simp: pulseDue_def list_ex_length)
qed


lemma mapE_nth:
  assumes "mapE f xs = Inr ys"
  shows "length ys = length xs \<and> (\<forall>i<length xs. f (xs ! i) = Inr (ys ! i))"
  using assms
proof (induction xs arbitrary: ys)
  case Nil
  then show ?case by simp
next
  case (Cons x xs)
  from Cons.prems obtain y ys' where y: "f x = Inr y" and ys': "mapE f xs = Inr ys'"
    and ys: "ys = y # ys'"
    by (auto split: sum.splits)
  from Cons.IH [OF ys'] y ys show ?case by (auto simp: nth_Cons split: nat.splits)
qed

lemma setupRun_requests:
  assumes "setupRun cfg clock s = Inr s'"
  shows "length (requests s') = usersCount cfg
       \<and> (\<forall>i<usersCount cfg.
             userIndex (requests s' ! i) = i \<and> req_state (requests s' ! i) = Pending
             \<and> startAt (requests s' ! i)
                 = (if sequential cfg then (if i = 0 then Num clock else PosInfinity)
                    else Num (clock + real i * userStaggerMs cfg)))"
proof -
  let ?s1 = "s\<lparr> replayTimer := None, isFinished := False \<rparr>"
  from assms obtain rs where m: "mapE (newRequest cfg clock ?s1) [0 ..< usersCount cfg] = Inr rs"
    and r: "requests s' = rs"
    by (auto simp: setupRun_def Let_def split: sum.splits if_splits)
  from mapE_nth [OF m] have len: "length rs = usersCount cfg"
    and el: "\<forall>i<usersCount cfg. newRequest cfg clock ?s1 i = Inr (rs ! i)"
    by simp_all
  have "\<forall>i<usersCount cfg.
          userIndex (rs ! i) = i \<and> req_state (rs ! i) = Pending
          \<and> startAt (rs ! i)
              = (if sequential cfg then (if i = 0 then Num clock else PosInfinity)
                 else Num (clock + real i * userStaggerMs cfg))"
  proof (intro allI impI)
    fix i assume "i < usersCount cfg"
    with el have eq: "Inr (rs ! i) = newRequest cfg clock ?s1 i" by simp
    show "userIndex (rs ! i) = i \<and> req_state (rs ! i) = Pending
          \<and> startAt (rs ! i)
              = (if sequential cfg then (if i = 0 then Num clock else PosInfinity)
                 else Num (clock + real i * userStaggerMs cfg))"
    proof (cases "nth_opt (users (layout ?s1)) i")
      case None
      with eq show ?thesis by (simp add: newRequest_def)
    next
      case (Some u)
      with eq have "rs ! i =
          \<lparr> userIndex = i, edgeIndex = assignedEdgeIndex u,
            regionalIndex = js_index (edgesToRegional (layout ?s1)) (assignedEdgeIndex u),
            startAt = (if sequential cfg then (if i = 0 then Num clock else PosInfinity)
                       else Num (clock + real i * userStaggerMs cfg)),
            req_state = Pending, t0 = 0 \<rparr>"
        by (simp add: newRequest_def)
      then show ?thesis by simp
    qed
  qed
  with len r show ?thesis by simp
qed

lemma setupRun_nothing_due:
  assumes "setupRun cfg clock s = Inr s'"
  shows "\<not> edgeStoreDue cfg now s' j \<and> \<not> regionalStoreDue cfg now s' j"
  using setupRun_requests [OF assms]
  by (auto simp: edgeStoreDue_def regionalStoreDue_def list_ex_length)

lemma renderFrame_flags:
  assumes "renderFrame cfg now clock s = Inr s'"
  shows "(\<not> cachedAt (edgesState s) j \<and> cachedAt (edgesState s') j \<longrightarrow> edgeStoreDue cfg now s j)
       \<and> (cachedAt (edgesState s) j \<and> \<not> cachedAt (edgesState s') j \<longrightarrow> pulseDue now Edge s j)
       \<and> (\<not> cachedAt (regionalState s) j \<and> cachedAt (regionalState s') j
            \<longrightarrow> regionalStoreDue cfg now s j)
       \<and> (cachedAt (regionalState s) j \<and> \<not> cachedAt (regionalState s') j
            \<longrightarrow> pulseDue now Regional s j)"
proof -
  from assms obtain s1 s2 a s3 b where
    s1: "(if requests s = [] \<and> \<not> isFinished s \<and> invalidations s = []
          then setupRun cfg clock s else Inr s) = Inr s1"
    and s2: "processRequests cfg now s1 = Inr (s2, a)"
    and s3: "processInvalidations cfg now s2 = Inr (s3, b)"
    and s': "s' = endFrame (a + b) s3"
    by (rule renderFrame_unfold)
  have f1: "edgesState s1 = edgesState s" "regionalState s1 = regionalState s"
    "invalidations s1 = invalidations s"
    using s1 setupRun_fields [of cfg clock s s1] by (auto split: if_splits)
  have d1: "edgeStoreDue cfg now s1 j \<longrightarrow> edgeStoreDue cfg now s j"
    "regionalStoreDue cfg now s1 j \<longrightarrow> regionalStoreDue cfg now s j"
    using s1 setupRun_nothing_due [of cfg clock s s1 now j] by (auto split: if_splits)
  have p2: "pulseDue now Edge s2 j = pulseDue now Edge s j"
    "pulseDue now Regional s2 j = pulseDue now Regional s j"
    using processRequests_control [OF s2] f1(3) by (simp_all add: pulseDue_def)
  have f3: "edgesState s' = edgesState s3" "regionalState s' = regionalState s3"
    using s' by (simp_all add: endFrame_fields)
  from processRequests_flags [OF s2, of j] processInvalidations_flags [OF s3, of j]
    f1 d1 p2 f3
  show ?thesis by metis
qed

lemma cachedAt_map_uncached: "\<not> cachedAt (map (\<lambda>e. e\<lparr> cached := False \<rparr>) ns) j"
  by (simp add: cachedAt_def nth_opt_def)

lemma clearCache_flags:
  assumes "clearCache cfg now clock s = Inr s'"
  shows "(cachedAt (edgesState s') j \<longrightarrow> edgeStoreDue cfg now s j)
       \<and> (cachedAt (regionalState s') j \<longrightarrow> regionalStoreDue cfg now s j)"
proof -
  define s1 where "s1 = s\<lparr> edgesState := map (\<lambda>e. e\<lparr> cached := False \<rparr>) (edgesState s),
      regionalState := map (\<lambda>r. r\<lparr> cached := False \<rparr>) (regionalState s),
      replayTimer := None, isFinished := True \<rparr>"
  from assms have "renderFrame cfg now clock s1 = Inr s'"
    by (simp add: clearCache_def Let_def s1_def split: if_splits)
  from renderFrame_flags [OF this, of j] show ?thesis
    by (simp add: s1_def cachedAt_map_uncached edgeStoreDue_def regionalStoreDue_def)
qed

lemma calculateLayoutPositions_fields:
  "edgesState (calculateLayoutPositions cfg s) = edgesState s
   \<and> regionalState (calculateLayoutPositions cfg s) = regionalState s
   \<and> length (edges (layout (calculateLayoutPositions cfg s))) = edgesCount cfg
   \<and> length (regionals (layout (calculateLayoutPositions cfg s))) = 2
   \<and> length (users (layout (calculateLayoutPositions cfg s))) = usersCount cfg"
  by (simp add: calculateLayoutPositions_def Let_def)

lemma cachedAt_toCacheNode:
  "cachedAt (map (toCacheNode old ns) [0 ..< n]) j = (j < n \<and> cachedAt old j)"
  by (simp add: cachedAt_def nth_opt_def toCacheNode_def)

lemma sizeCanvas_unfold:
  assumes "sizeCanvas cfg rectWidth rectHeight s = Inr s'"
  obtains s1 where
    "s1 = s\<lparr> width := max 600 \<lfloor>rectWidth\<rfloor>,
             height := max DEFAULT_HEIGHT
               (if rectHeight = 0 then DEFAULT_HEIGHT else \<lfloor>rectHeight\<rfloor>) \<rparr>"
    "s' = (calculateLayoutPositions cfg s1)
            \<lparr> edgesState :=
                map (toCacheNode (edgesState (calculateLayoutPositions cfg s1))
                       (edges (layout (calculateLayoutPositions cfg s1))))
                  [0 ..< length (edges (layout (calculateLayoutPositions cfg s1)))],
              regionalState :=
                map (toCacheNode (regionalState (calculateLayoutPositions cfg s1))
                       (regionals (layout (calculateLayoutPositions cfg s1))))
                  [0 ..< length (regionals (layout (calculateLayoutPositions cfg s1)))] \<rparr>"
    "drawStaticToBuffer s'"
  using assms unfolding sizeCanvas_def Let_def by (simp split: if_splits)

lemma sizeCanvas_flags:
  assumes "sizeCanvas cfg rectWidth rectHeight s = Inr s'"
  shows "cachedAt (edgesState s') j = (j < edgesCount cfg \<and> cachedAt (edgesState s) j)
       \<and> cachedAt (regionalState s') j = (j < 2 \<and> cachedAt (regionalState s) j)"
proof -
  from assms obtain s1 where
    s1: "s1 = s\<lparr> width := max 600 \<lfloor>rectWidth\<rfloor>,
             height := max DEFAULT_HEIGHT
               (if rectHeight = 0 then DEFAULT_HEIGHT else \<lfloor>rectHeight\<rfloor>) \<rparr>"
    and s': "s' = (calculateLayoutPositions cfg s1)
            \<lparr> edgesState :=
                map (toCacheNode (edgesState (calculateLayoutPositions cfg s1))
                       (edges (layout (calculateLayoutPositions cfg s1))))
                  [0 ..< length (edges (layout (calculateLayoutPositions cfg s1)))],
              regionalState :=
                map (toCacheNode (regionalState (calculateLayoutPositions cfg s1))
                       (regionals (layout (calculateLayoutPositions cfg s1))))
                  [0 ..< length (regionals (layout (calculateLayoutPositions cfg s1)))] \<rparr>"
    by (rule sizeCanvas_unfold)
  from s' show ?thesis
    by (simp add: cachedAt_toCacheNode calculateLayoutPositions_fields s1)
qed


text \<open>
  Claim C1, as amended. In a frame a \<open>cached\<close> flag goes from false to true only when a
  request storing at that node has reached progress 1, and from true to false only when
  an invalidation of that node in its pulsing phase has reached progress 1. Besides the
  frame, \<open>clearCache\<close> writes the flags: it clears every flag before it runs its frame,
  so that afterwards only a flag stored in that frame is set. \<open>sizeCanvas\<close> rebuilds the
  nodes and copies their flags. No other operation changes a flag.
\<close>

theorem cached_flag_writers:
  "(renderFrame cfg now clock s = Inr s' \<longrightarrow>
      (\<not> cachedAt (edgesState s) j \<and> cachedAt (edgesState s') j \<longrightarrow> edgeStoreDue cfg now s j)
      \<and> (cachedAt (edgesState s) j \<and> \<not> cachedAt (edgesState s') j \<longrightarrow> pulseDue now Edge s j)
      \<and> (\<not> cachedAt (regionalState s) j \<and> cachedAt (regionalState s') j
           \<longrightarrow> regionalStoreDue cfg now s j)
      \<and> (cachedAt (regionalState s) j \<and> \<not> cachedAt (regionalState s') j
           \<longrightarrow> pulseDue now Regional s j))
   \<and> (clearCache cfg now clock s = Inr s' \<longrightarrow>
      (cachedAt (edgesState s') j \<longrightarrow> edgeStoreDue cfg now s j)
      \<and> (cachedAt (regionalState s') j \<longrightarrow> regionalStoreDue cfg now s j))
   \<and> (sizeCanvas cfg rectWidth rectHeight s = Inr s' \<longrightarrow>
      cachedAt (edgesState s') j = (j < edgesCount cfg \<and> cachedAt (edgesState s) j)
      \<and> cachedAt (regionalState s') j = (j < 2 \<and> cachedAt (regionalState s) j))
   \<and> (setupRun cfg clock s = Inr s' \<or> startLoop cfg clock s = Inr s'
        \<or> restart cfg clock s = Inr s' \<or> replayCallback cfg clock s = Inr s'
        \<or> onPlayPauseClick cfg clock s = Inr s' \<or> invalidateAllCaches cfg now s = Inr s'
        \<or> onCanvasClick cfg clickX clickY clock s = Inr s'
        \<or> s' = pauseLoop s \<or> s' = destroy s
      \<longrightarrow> edgesState s' = edgesState s \<and> regionalState s' = regionalState s)"
proof -
  have d: "edgesState (destroy s) = edgesState s \<and> regionalState (destroy s) = regionalState s"
    by (simp add: destroy_def pauseLoop_def)
  have others:
    "setupRun cfg clock s = Inr s' \<or> startLoop cfg clock s = Inr s'
        \<or> restart cfg clock s = Inr s' \<or> replayCallback cfg clock s = Inr s'
        \<or> onPlayPauseClick cfg clock s = Inr s' \<or> invalidateAllCaches cfg now s = Inr s'
        \<or> onCanvasClick cfg clickX clickY clock s = Inr s'
        \<or> s' = pauseLoop s
      \<longrightarrow> sameCaches s s'"
    using setupRun_sameCaches [of cfg clock s s'] startLoop_sameCaches [of cfg clock s s']
      restart_sameCaches [of cfg clock s s'] replayCallback_sameCaches [of cfg clock s s']
      onPlayPauseClick_sameCaches [of cfg clock s s']
      invalidateAllCaches_sameCaches [of cfg now s s']
      onCanvasClick_sameCaches [of cfg clickX clickY clock s s']
      pauseLoop_sameCaches [of s]
    by blast
  show ?thesis
    using renderFrame_flags [of cfg now clock s s' j] clearCache_flags [of cfg now clock s s' j]
      sizeCanvas_flags [of cfg rectWidth rectHeight s s' j] others d
    unfolding sameCaches_def by blast
qed

theorem cached_flag_writers_witness:
  "\<not> cachedAt (regionalState (projr (run ANIM_CONFIG (take 4 firstRun) exStarted))) 0
   \<and> cachedAt (regionalState exRegionalWarm) 0
   \<and> regionalStoreDue ANIM_CONFIG 5100 (projr (run ANIM_CONFIG (take 4 firstRun) exStarted)) 0
   \<and> edgesState (projr (invalidateAllCaches ANIM_CONFIG 5200 exRegionalWarm))
       = edgesState exRegionalWarm
   \<and> regionalState (projr (invalidateAllCaches ANIM_CONFIG 5200 exRegionalWarm))
       = regionalState exRegionalWarm"
proof -
  let ?s4 = "projr (run ANIM_CONFIG (take 4 firstRun) exStarted)"
  have f: "renderFrame ANIM_CONFIG 5100 0 ?s4 = Inr exRegionalWarm"
    by (simp add: firstRun_def exRegionalWarm_def ex_defs eval_defs)
  have n: "\<not> cachedAt (regionalState ?s4) 0" and w: "cachedAt (regionalState exRegionalWarm) 0"
    by (simp_all add: firstRun_def exRegionalWarm_def ex_defs eval_defs)
  have i: "invalidateAllCaches ANIM_CONFIG 5200 exRegionalWarm
        = Inr (projr (invalidateAllCaches ANIM_CONFIG 5200 exRegionalWarm))"
    by (simp add: exRegionalWarm_def ex_defs eval_defs)
  from cached_flag_writers
         [where cfg = ANIM_CONFIG and now = 5100 and clock = 0 and s = ?s4
            and s' = exRegionalWarm and j = 0]
       cached_flag_writers
         [where cfg = ANIM_CONFIG and now = 5200 and s = exRegionalWarm
            and s' = "projr (invalidateAllCaches ANIM_CONFIG 5200 exRegionalWarm)"]
       f n w i
  show ?thesis by simp
qed

text \<open>
  Claim C1 as stated fails: \<open>clearCache\<close> is another operation that writes the flag.
  Regional cache 0 is warm, no invalidation event exists, and \<open>clearCache()\<close> turns the
  flag off.
\<close>

theorem clearCache_clears_flag_counterexample:
  "cachedAt (regionalState exRegionalWarm) 0
   \<and> invalidations exRegionalWarm = []
   \<and> \<not> pulseDue 5200 Regional exRegionalWarm 0
   \<and> \<not> isl (clearCache ANIM_CONFIG 5200 5200 exRegionalWarm)
   \<and> \<not> cachedAt (regionalState (projr (clearCache ANIM_CONFIG 5200 5200 exRegionalWarm))) 0"
  by (simp add: exRegionalWarm_def pulseDue_def ex_defs eval_defs)

subsection \<open>Invariants of the request list\<close>

text \<open>
  The request list is written by \<open>setupRun\<close> (a fresh batch), by the loop over the
  requests in a frame, and by a click (a request appended). A property of the list that
  these three keep is kept by every event.
\<close>

lemma requestInvariant_seeded:
  "requestInvariant cfg I \<Longrightarrow> setupRun cfg c t = Inr t' \<Longrightarrow> I (requests t')"
  unfolding requestInvariant_def by blast

lemma requestInvariant_frame:
  "requestInvariant cfg I \<Longrightarrow> processRequests cfg now t = Inr (t', n) \<Longrightarrow> I (requests t)
     \<Longrightarrow> I (requests t')"
  unfolding requestInvariant_def by blast

lemma requestInvariant_click:
  "requestInvariant cfg I \<Longrightarrow> clickUser cfg x y c i t = Inr t' \<Longrightarrow> I (requests t)
     \<Longrightarrow> I (requests t')"
  unfolding requestInvariant_def by blast

lemma startLoop_requests_invariant:
  assumes ri: "requestInvariant cfg I"
    and "startLoop cfg clock s = Inr s'" and "I (requests s)"
  shows "I (requests s')"
proof -
  from startLoop_cases [OF assms(2)]
  consider "s' = s" | "s' = s\<lparr> isPlaying := True, rafId := Some Handle \<rparr>"
    | "restart cfg clock s = Inr s'"
    by blast
  then show ?thesis
  proof cases
    case 1
    with assms(3) show ?thesis by simp
  next
    case 2
    with assms(3) show ?thesis by simp
  next
    case 3
    then obtain s1 where
      s1: "setupRun cfg clock (s\<lparr> runIndex := 0, isFinished := False, replayTimer := None \<rparr>)
             = Inr s1"
      and s': "s' = s1 \<or> s' = s1\<lparr> isPlaying := True, rafId := Some Handle \<rparr>"
      by (rule restart_unfold)
    from requestInvariant_seeded [OF ri s1] s' show ?thesis by auto
  qed
qed

lemma restart_requests_invariant:
  assumes ri: "requestInvariant cfg I"
    and "restart cfg clock s = Inr s'"
  shows "I (requests s')"
proof -
  from assms(2) obtain s1 where
    s1: "setupRun cfg clock (s\<lparr> runIndex := 0, isFinished := False, replayTimer := None \<rparr>)
           = Inr s1"
    and s': "s' = s1 \<or> s' = s1\<lparr> isPlaying := True, rafId := Some Handle \<rparr>"
    by (rule restart_unfold)
  from requestInvariant_seeded [OF ri s1] s' show ?thesis by auto
qed

lemma renderFrame_requests_invariant:
  assumes ri: "requestInvariant cfg I"
    and "renderFrame cfg now clock s = Inr s'" and "I (requests s)"
  shows "I (requests s')"
proof -
  from assms(2) obtain s1 s2 a s3 b where
    s1: "(if requests s = [] \<and> \<not> isFinished s \<and> invalidations s = []
          then setupRun cfg clock s else Inr s) = Inr s1"
    and s2: "processRequests cfg now s1 = Inr (s2, a)"
    and s3: "processInvalidations cfg now s2 = Inr (s3, b)"
    and s': "s' = endFrame (a + b) s3"
    by (rule renderFrame_unfold)
  have "I (requests s1)"
    using s1 requestInvariant_seeded [OF ri, of clock s s1] assms(3) by (auto split: if_splits)
  then have "I (requests s2)" by (rule requestInvariant_frame [OF ri s2])
  with processInvalidations_control [OF s3] s' show ?thesis by (simp add: endFrame_fields)
qed

lemma clearCache_requests_invariant:
  assumes ri: "requestInvariant cfg I"
    and "clearCache cfg now clock s = Inr s'" and "I (requests s)"
  shows "I (requests s')"
proof -
  define s1 where "s1 = s\<lparr> edgesState := map (\<lambda>e. e\<lparr> cached := False \<rparr>) (edgesState s),
      regionalState := map (\<lambda>r. r\<lparr> cached := False \<rparr>) (regionalState s),
      replayTimer := None, isFinished := True \<rparr>"
  from assms(2) have r: "renderFrame cfg now clock s1 = Inr s'"
    by (simp add: clearCache_def Let_def s1_def split: if_splits)
  have "I (requests s1)" using assms(3) by (simp add: s1_def)
  with renderFrame_requests_invariant [OF ri r] show ?thesis by blast
qed

lemma step_requests_invariant:
  assumes ri: "requestInvariant cfg I"
    and st: "step cfg ev s = Inr s'" and inv: "I (requests s)"
  shows "I (requests s')"
proof (cases ev)
  case (Start rw rh clock)
  with st obtain s1 s2 where "sizeCanvas cfg rw rh s = Inr s1"
    and s2: "setupRun cfg clock s1 = Inr s2" and sl: "startLoop cfg clock s2 = Inr s'"
    by (auto simp: start_def split: sum.splits)
  from startLoop_requests_invariant [OF ri sl requestInvariant_seeded [OF ri s2]]
  show ?thesis .
next
  case (Frame now clock)
  with st have "renderFrame cfg now clock s = Inr s'" by simp
  from renderFrame_requests_invariant [OF ri this inv] show ?thesis .
next
  case (Play clock)
  with st have "startLoop cfg clock s = Inr s'" by simp
  from startLoop_requests_invariant [OF ri this inv] show ?thesis .
next
  case Pause
  with st inv show ?thesis by (auto simp: pauseLoop_def)
next
  case (Restart clock)
  with st have "restart cfg clock s = Inr s'" by simp
  from restart_requests_invariant [OF ri this] show ?thesis .
next
  case (ClearCache now clock)
  with st have "clearCache cfg now clock s = Inr s'" by simp
  from clearCache_requests_invariant [OF ri this inv] show ?thesis .
next
  case (Invalidate now)
  with st inv invalidateAllCaches_sameCaches [of cfg now s s'] show ?thesis by simp
next
  case Destroy
  with st inv show ?thesis by (auto simp: destroy_def pauseLoop_def)
next
  case (CanvasClick cx cy clock)
  show ?thesis
  proof (cases "destroyed s")
    case True
    with CanvasClick st inv show ?thesis by (simp add: onCanvasClick_def)
  next
    case False
    with CanvasClick st have fe:
      "forEach (clickUser cfg cx cy clock) [0 ..< length (users (layout s))] s = Inr s'"
      by (simp add: onCanvasClick_def)
    show ?thesis
      by (rule forEach_invariant [where P = "\<lambda>x. I (requests x)", OF fe inv])
         (rule requestInvariant_click [OF ri])
  qed
next
  case (PlayPauseClick clock)
  show ?thesis
  proof (cases "isPlaying s")
    case True
    with PlayPauseClick st inv show ?thesis by (auto simp: onPlayPauseClick_def pauseLoop_def)
  next
    case False
    with PlayPauseClick st have "startLoop cfg clock s = Inr s'"
      by (simp add: onPlayPauseClick_def)
    from startLoop_requests_invariant [OF ri this inv] show ?thesis .
  qed
next
  case (ClearCacheClick now clock)
  with st obtain s1 where "clearCache cfg now clock s = Inr s1"
    and "restart cfg clock s1 = Inr s'"
    by (auto simp: onClearCacheClick_def split: sum.splits)
  from restart_requests_invariant [OF ri this(2)] show ?thesis .
next
  case (Resize rw rh now clock)
  with st obtain s1 where s1: "sizeCanvas cfg rw rh s = Inr s1"
    and r: "(if \<not> isPlaying s1 then renderFrame cfg now clock s1 else Inr s1) = Inr s'"
    by (auto simp: onResize_def split: sum.splits)
  from sizeCanvas_fields [OF s1] inv have i1: "I (requests s1)" by simp
  show ?thesis
  proof (cases "isPlaying s1")
    case True
    with r i1 show ?thesis by simp
  next
    case False
    with r have "renderFrame cfg now clock s1 = Inr s'" by simp
    from renderFrame_requests_invariant [OF ri this i1] show ?thesis .
  qed
next
  case (ReplayTimer clock)
  with st obtain s1 where s1: "setupRun cfg clock s = Inr s1"
    and sl: "startLoop cfg clock s1 = Inr s'"
    by (auto simp: replayCallback_def split: sum.splits)
  from startLoop_requests_invariant [OF ri sl requestInvariant_seeded [OF ri s1]] show ?thesis .
qed

lemma run_requests_invariant:
  assumes ri: "requestInvariant cfg I"
    and "run cfg evs s = Inr s'" and "I (requests s)"
  shows "I (requests s')"
  using assms(2,3)
proof (induction evs arbitrary: s)
  case Nil
  then show ?case by simp
next
  case (Cons ev evs)
  from Cons.prems(1) obtain s1 where s1: "step cfg ev s = Inr s1"
    and rest: "run cfg evs s1 = Inr s'"
    by (auto split: sum.splits)
  have "I (requests s1)"
    by (rule step_requests_invariant [OF ri s1 Cons.prems(2)])
  with Cons.IH [OF rest] show ?case .
qed

subsection \<open>At most one request in flight per user\<close>

lemma filter_update_le:
  assumes "i < length xs" and "P y \<longrightarrow> P (xs ! i)"
  shows "length (filter P (xs[i := y])) \<le> length (filter P xs)"
  using assms
proof (induction xs arbitrary: i)
  case Nil
  then show ?case by simp
next
  case (Cons x xs)
  show ?case
  proof (cases i)
    case 0
    with Cons.prems show ?thesis by simp
  next
    case (Suc k)
    with Cons.prems Cons.IH [of k] show ?thesis by simp
  qed
qed

lemma filter_userIndex_offset:
  assumes "\<forall>i<length rs. userIndex (rs ! i) = k + i"
  shows "length (filter (\<lambda>r. userIndex r = u \<and> Q r) rs) \<le> 1"
  using assms
proof (induction rs arbitrary: k)
  case Nil
  then show ?case by simp
next
  case (Cons x xs)
  have tl: "\<forall>i<length xs. userIndex (xs ! i) = Suc k + i"
  proof (intro allI impI)
    fix i assume "i < length xs"
    with Cons.prems have "userIndex ((x # xs) ! Suc i) = k + Suc i" by auto
    then show "userIndex (xs ! i) = Suc k + i" by simp
  qed
  show ?case
  proof (cases "userIndex x = u")
    case True
    from Cons.prems have "userIndex ((x # xs) ! 0) = k + 0" by blast
    with True have k: "k = u" by simp
    have "\<forall>r\<in>set xs. \<not> (userIndex r = u \<and> Q r)"
    proof
      fix r assume "r \<in> set xs"
      then obtain i where "i < length xs" "r = xs ! i" by (auto simp: in_set_conv_nth)
      with tl k show "\<not> (userIndex r = u \<and> Q r)" by simp
    qed
    then have "filter (\<lambda>r. userIndex r = u \<and> Q r) xs = []" by (simp only: filter_False)
    then show ?thesis by simp
  next
    case False
    with Cons.IH [OF tl] show ?thesis by simp
  qed
qed

lemma setupRun_oneInFlight:
  assumes "setupRun cfg clock s = Inr s'"
  shows "oneInFlight (requests s')"
proof -
  from setupRun_requests [OF assms]
  have "\<forall>i<length (requests s'). userIndex (requests s' ! i) = 0 + i" by simp
  from filter_userIndex_offset [OF this] show ?thesis
    by (simp add: oneInFlight_def inFlight_def)
qed

lemma processRequest_inFlight:
  assumes "processRequest cfg now i (s, a) = Inr (s', a')" and "i < length (requests s)"
  shows "length (inFlight u (requests s')) \<le> length (inFlight u (requests s))"
proof -
  let ?P = "\<lambda>r. userIndex r = u \<and> req_state r \<noteq> Done"
  have eq: "requests s' = (requests s)[i := requests s' ! i]"
    by (rule processRequest_requests [OF assms(1)])
  have "?P (requests s' ! i) \<longrightarrow> ?P (requests s ! i)"
    using processRequest_ids [OF assms] processRequest_Done [OF assms(1)] by auto
  from filter_update_le [OF assms(2), of ?P "requests s' ! i", OF this] eq
  show ?thesis by (simp add: inFlight_def)
qed

lemma processRequests_oneInFlight:
  assumes "processRequests cfg now s = Inr (s', n)" and "oneInFlight (requests s)"
  shows "oneInFlight (requests s')"
proof -
  let ?P = "\<lambda>x. oneInFlight (requests (fst x)) \<and> length (requests (fst x)) = length (requests s)"
  have "?P (s', n)"
  proof (rule forEach_invariant [where P = ?P, OF assms(1) [unfolded processRequests_def]])
    show "?P (s, 0)" using assms(2) by simp
  next
    fix i x y
    assume i: "i \<in> set [0 ..< length (requests s)]" and p: "?P x"
      and st: "processRequest cfg now i x = Inr y"
    obtain sx ax sy ay where x: "x = (sx, ax)" and y: "y = (sy, ay)" by (cases x, cases y) auto
    from st x y have st': "processRequest cfg now i (sx, ax) = Inr (sy, ay)" by simp
    from i p x have il: "i < length (requests sx)" by simp
    have "\<forall>u. length (inFlight u (requests sy)) \<le> 1"
    proof
      fix u
      from processRequest_inFlight [OF st' il, of u] p x
      show "length (inFlight u (requests sy)) \<le> 1"
        by (simp add: oneInFlight_def) (meson le_trans)
    qed
    with processRequest_length [OF st'] p x y show "?P y" by (simp add: oneInFlight_def)
  qed
  then show ?thesis by simp
qed

lemma clickUser_requests:
  assumes "clickUser cfg clickX clickY clock i s = Inr s'"
  shows "requests s' = requests s
       \<or> (insideUser (users (layout s) ! i) clickX clickY
          \<and> \<not> list_ex (\<lambda>r. userIndex r = i \<and> req_state r \<noteq> Done) (requests s)
          \<and> requests s' = requests s
               @ [\<lparr> userIndex = i,
                    edgeIndex = assignedEdgeIndex (users (layout s) ! i),
                    regionalIndex = js_index (edgesToRegional (layout s))
                      (assignedEdgeIndex (users (layout s) ! i)),
                    startAt = Num clock, req_state = Pending, t0 = 0 \<rparr>])"
proof -
  let ?u = "users (layout s) ! i"
  let ?new = "\<lparr> userIndex = i, edgeIndex = assignedEdgeIndex ?u,
      regionalIndex = js_index (edgesToRegional (layout s)) (assignedEdgeIndex ?u),
      startAt = Num clock, req_state = Pending, t0 = 0 \<rparr>"
  let ?s1 = "s\<lparr> requests := requests s @ [?new] \<rparr>"
  let ?blocked = "list_ex (\<lambda>r. userIndex r = i \<and> req_state r \<noteq> Done) (requests s)"
  show ?thesis
  proof (cases "insideUser ?u clickX clickY \<and> \<not> ?blocked")
    case False
    with assms have "s' = s" by (auto simp: clickUser_def Let_def split: if_splits)
    then show ?thesis by simp
  next
    case True
    with assms have "s' = ?s1 \<or> startLoop cfg clock (?s1\<lparr> isFinished := False \<rparr>) = Inr s'"
      by (simp add: clickUser_def Let_def split: if_splits)
    then have "requests s' = requests ?s1"
      using startLoop_unfinished [of cfg clock "?s1\<lparr> isFinished := False \<rparr>" s'] by auto
    with True show ?thesis by simp
  qed
qed

lemma clickUser_oneInFlight:
  assumes "clickUser cfg clickX clickY clock i s = Inr s'" and "oneInFlight (requests s)"
  shows "oneInFlight (requests s')"
proof -
  from clickUser_requests [OF assms(1)]
  consider "requests s' = requests s"
    | r where "\<not> list_ex (\<lambda>r. userIndex r = i \<and> req_state r \<noteq> Done) (requests s)"
        "requests s' = requests s @ [r]" "userIndex r = i"
    by auto
  then show ?thesis
  proof cases
    case 1
    with assms(2) show ?thesis by simp
  next
    case 2
    from 2(1) have "inFlight i (requests s) = []"
      by (auto simp: inFlight_def list_ex_iff filter_empty_conv)
    with 2(2,3) assms(2) show ?thesis
      by (auto simp: oneInFlight_def inFlight_def)
  qed
qed

lemma oneInFlight_invariant: "requestInvariant cfg oneInFlight"
  unfolding requestInvariant_def
  using setupRun_oneInFlight processRequests_oneInFlight clickUser_oneInFlight
  by blast

lemma onCanvasClick_same_user:
  assumes "onCanvasClick cfg clickX clickY clock s = Inr s'"
    and "inFlight u (requests s) \<noteq> []"
  shows "filter (\<lambda>r. userIndex r = u) (requests s') = filter (\<lambda>r. userIndex r = u) (requests s)"
proof (cases "destroyed s")
  case True
  with assms(1) show ?thesis by (simp add: onCanvasClick_def)
next
  case False
  with assms(1) have fe:
    "forEach (clickUser cfg clickX clickY clock) [0 ..< length (users (layout s))] s = Inr s'"
    by (simp add: onCanvasClick_def)
  let ?P = "\<lambda>x. filter (\<lambda>r. userIndex r = u) (requests x)
        = filter (\<lambda>r. userIndex r = u) (requests s) \<and> inFlight u (requests x) \<noteq> []"
  have "?P s'"
  proof (rule forEach_invariant [where P = ?P, OF fe])
    show "?P s" using assms(2) by simp
  next
    fix i x y assume p: "?P x" and st: "clickUser cfg clickX clickY clock i x = Inr y"
    from clickUser_requests [OF st]
    consider "requests y = requests x"
      | r where "\<not> list_ex (\<lambda>r. userIndex r = i \<and> req_state r \<noteq> Done) (requests x)"
          "requests y = requests x @ [r]" "userIndex r = i"
      by auto
    then show "?P y"
    proof cases
      case 1
      with p show ?thesis by simp
    next
      case 2
      from 2(1) have "inFlight i (requests x) = []"
        by (auto simp: inFlight_def list_ex_iff filter_empty_conv)
      with p have "i \<noteq> u" by auto
      with 2(2,3) p show ?thesis by (simp add: inFlight_def)
    qed
  qed
  then show ?thesis by simp
qed


subsection \<open>The user nodes of the shipped layout do not overlap\<close>

lemma inside_vertical:
  assumes "insideUser usr x y" and "node_w usr = 56" and "node_h usr = 56"
  shows "\<bar>y - node_y usr\<bar> \<le> 28"
proof -
  let ?dx = "x - node_x usr"
  let ?dy = "y - node_y usr"
  from assms have "?dx * ?dx + ?dy * ?dy \<le> 28 * 28"
    by (simp add: insideUser_def Let_def)
  moreover have "0 \<le> ?dx * ?dx" by simp
  ultimately have "?dy * ?dy \<le> 28 * 28" by linarith
  then have "?dy\<^sup>2 \<le> 28\<^sup>2" by (simp add: power2_eq_square)
  then show ?thesis by (simp only: power2_le_iff_abs_le)
qed

lemma users_of_layout:
  assumes "i < usersCount cfg"
  shows "node_w (users (layout (calculateLayoutPositions cfg s)) ! i) = 56
       \<and> node_h (users (layout (calculateLayoutPositions cfg s)) ! i) = 56
       \<and> node_y (users (layout (calculateLayoutPositions cfg s)) ! i)
           = 40 + ((real_of_int (height s) - 40 * 2) / (real (usersCount cfg) + 1)) * (real i + 1)"
  using assms by (simp add: calculateLayoutPositions_def Let_def)

lemma sizeCanvas_usersApart:
  assumes "sizeCanvas ANIM_CONFIG rectWidth rectHeight s = Inr s'"
  shows "usersApart (users (layout s'))"
proof -
  from assms obtain s1 where
    s1: "s1 = s\<lparr> width := max 600 \<lfloor>rectWidth\<rfloor>,
             height := max DEFAULT_HEIGHT
               (if rectHeight = 0 then DEFAULT_HEIGHT else \<lfloor>rectHeight\<rfloor>) \<rparr>"
    and s': "s' = (calculateLayoutPositions ANIM_CONFIG s1)
            \<lparr> edgesState :=
                map (toCacheNode (edgesState (calculateLayoutPositions ANIM_CONFIG s1))
                       (edges (layout (calculateLayoutPositions ANIM_CONFIG s1))))
                  [0 ..< length (edges (layout (calculateLayoutPositions ANIM_CONFIG s1)))],
              regionalState :=
                map (toCacheNode (regionalState (calculateLayoutPositions ANIM_CONFIG s1))
                       (regionals (layout (calculateLayoutPositions ANIM_CONFIG s1))))
                  [0 ..< length (regionals (layout (calculateLayoutPositions ANIM_CONFIG s1)))] \<rparr>"
    by (rule sizeCanvas_unfold)
  let ?us = "users (layout (calculateLayoutPositions ANIM_CONFIG s1))"
  define d where "d = (real_of_int (height s1) - 40 * 2) / 5"
  have us: "users (layout s') = ?us" using s' by simp
  have n: "length ?us = 4" "usersCount ANIM_CONFIG = 4"
    by (simp_all add: calculateLayoutPositions_fields ANIM_CONFIG_def)
  have "420 \<le> height s1" by (simp add: s1 DEFAULT_HEIGHT_def)
  then have d: "68 \<le> d" by (simp add: d_def)
  have el: "\<And>i. i < 4 \<Longrightarrow> node_w (?us ! i) = 56 \<and> node_h (?us ! i) = 56
        \<and> node_y (?us ! i) = 40 + d * (real i + 1)"
    using users_of_layout [of _ ANIM_CONFIG s1] n(2) by (simp add: d_def)
  have apart: "\<And>i j x y. i < 4 \<Longrightarrow> j < 4 \<Longrightarrow> i < j \<Longrightarrow> insideUser (?us ! i) x y
        \<Longrightarrow> insideUser (?us ! j) x y \<Longrightarrow> False"
  proof -
    fix i j :: nat and x y :: real
    assume ij: "i < 4" "j < 4" "i < j"
      and hi: "insideUser (?us ! i) x y" and hj: "insideUser (?us ! j) x y"
    from inside_vertical [OF hi] el [OF ij(1)]
    have a: "\<bar>y - (40 + d * (real i + 1))\<bar> \<le> 28" by simp
    from inside_vertical [OF hj] el [OF ij(2)]
    have b: "\<bar>y - (40 + d * (real j + 1))\<bar> \<le> 28" by simp
    from ij(3) have "real i + 1 \<le> real j" by simp
    then have "d * (real i + 1) \<le> d * real j" using d by (simp add: mult_left_mono)
    then have "d * (real i + 1) + d \<le> d * (real j + 1)" by (simp add: algebra_simps)
    with a b d show False by linarith
  qed
  show ?thesis
    unfolding usersApart_def us
  proof (intro allI impI)
    fix i j x y
    assume h: "i < length ?us \<and> j < length ?us \<and> insideUser (?us ! i) x y
        \<and> insideUser (?us ! j) x y"
    show "i = j"
    proof (rule ccontr)
      assume "i \<noteq> j"
      then consider "i < j" | "j < i" by linarith
      then show False
      proof cases
        case 1
        with h n(1) apart [of i j x y] show False by simp
      next
        case 2
        with h n(1) apart [of j i x y] show False by simp
      qed
    qed
  qed
qed

lemma step_layout_invariant:
  assumes sized: "\<forall>rw rh t t'. sizeCanvas cfg rw rh t = Inr t' \<longrightarrow> L (layout t')"
    and st: "step cfg ev s = Inr s'" and inv: "L (layout s)"
  shows "L (layout s')"
proof (cases ev)
  case (Start rw rh clock)
  with st obtain s1 s2 where s1: "sizeCanvas cfg rw rh s = Inr s1"
    and s2: "setupRun cfg clock s1 = Inr s2" and sl: "startLoop cfg clock s2 = Inr s'"
    by (auto simp: start_def split: sum.splits)
  from sized s1 have "L (layout s1)" by blast
  with setupRun_fields [OF s2] startLoop_sameCaches [OF sl] show ?thesis
    by (simp add: sameCaches_def)
next
  case (Frame now clock)
  with st inv renderFrame_fields [of cfg now clock s s'] show ?thesis by simp
next
  case (Play clock)
  with st inv startLoop_sameCaches [of cfg clock s s'] show ?thesis by (simp add: sameCaches_def)
next
  case Pause
  with st inv show ?thesis by (auto simp: pauseLoop_def)
next
  case (Restart clock)
  with st inv restart_sameCaches [of cfg clock s s'] show ?thesis by (simp add: sameCaches_def)
next
  case (ClearCache now clock)
  with st inv clearCache_fields [of cfg now clock s s'] show ?thesis by simp
next
  case (Invalidate now)
  with st inv invalidateAllCaches_sameCaches [of cfg now s s'] show ?thesis
    by (simp add: sameCaches_def)
next
  case Destroy
  with st inv show ?thesis by (auto simp: destroy_def pauseLoop_def)
next
  case (CanvasClick cx cy clock)
  with st inv onCanvasClick_sameCaches [of cfg cx cy clock s s'] show ?thesis
    by (simp add: sameCaches_def)
next
  case (PlayPauseClick clock)
  with st inv onPlayPauseClick_sameCaches [of cfg clock s s'] show ?thesis
    by (simp add: sameCaches_def)
next
  case (ClearCacheClick now clock)
  with st obtain s1 where "clearCache cfg now clock s = Inr s1"
    and "restart cfg clock s1 = Inr s'"
    by (auto simp: onClearCacheClick_def split: sum.splits)
  with clearCache_fields [of cfg now clock s s1] restart_sameCaches [of cfg clock s1 s'] inv
  show ?thesis by (simp add: sameCaches_def)
next
  case (Resize rw rh now clock)
  with st obtain s1 where s1: "sizeCanvas cfg rw rh s = Inr s1"
    and r: "(if \<not> isPlaying s1 then renderFrame cfg now clock s1 else Inr s1) = Inr s'"
    by (auto simp: onResize_def split: sum.splits)
  from sized s1 have "L (layout s1)" by blast
  with r renderFrame_fields [of cfg now clock s1 s'] show ?thesis by (auto split: if_splits)
next
  case (ReplayTimer clock)
  with st inv replayCallback_sameCaches [of cfg clock s s'] show ?thesis
    by (simp add: sameCaches_def)
qed

lemma run_usersApart:
  assumes "run ANIM_CONFIG evs s = Inr s'" and "usersApart (users (layout s))"
  shows "usersApart (users (layout s'))"
  using assms
proof (induction evs arbitrary: s)
  case Nil
  then show ?case by simp
next
  case (Cons ev evs)
  from Cons.prems(1) obtain s1 where s1: "step ANIM_CONFIG ev s = Inr s1"
    and rest: "run ANIM_CONFIG evs s1 = Inr s'"
    by (auto split: sum.splits)
  have "usersApart (users (layout s1))"
    using step_layout_invariant [where L = "\<lambda>l. usersApart (users l)", OF _ s1 Cons.prems(2)]
      sizeCanvas_usersApart
    by blast
  with Cons.IH [OF rest] show ?case .
qed

lemma forEach_fixpoint:
  assumes "\<forall>i\<in>set is. f i a = Inr a"
  shows "forEach f is a = Inr a"
  using assms by (induction "is") simp_all

lemma onCanvasClick_blocked:
  assumes "usersApart (users (layout s))" and "u < length (users (layout s))"
    and "insideUser (users (layout s) ! u) clickX clickY" and "inFlight u (requests s) \<noteq> []"
  shows "onCanvasClick cfg clickX clickY clock s = Inr s"
proof -
  have b: "list_ex (\<lambda>r. userIndex r = u \<and> req_state r \<noteq> Done) (requests s)"
    using assms(4) by (auto simp: inFlight_def list_ex_iff filter_empty_conv)
  have "\<forall>i\<in>set [0 ..< length (users (layout s))]. clickUser cfg clickX clickY clock i s = Inr s"
  proof
    fix i assume "i \<in> set [0 ..< length (users (layout s))]"
    then have i: "i < length (users (layout s))" by simp
    show "clickUser cfg clickX clickY clock i s = Inr s"
    proof (cases "i = u")
      case True
      with b assms(3) show ?thesis by (simp add: clickUser_def Let_def)
    next
      case False
      with assms(1,2,3) i have "\<not> insideUser (users (layout s) ! i) clickX clickY"
        unfolding usersApart_def by blast
      then show ?thesis by (simp add: clickUser_def Let_def)
    qed
  qed
  then show ?thesis by (simp add: onCanvasClick_def forEach_fixpoint)
qed

text \<open>
  Claim C8: in every state the animator can reach, each user has at most one request that
  is not done; a click never adds a request for a user who has one in flight; and in the
  shipped configuration, whose user nodes do not overlap, a click inside the node of such
  a user changes nothing at all.
\<close>

theorem one_request_in_flight_per_user:
  "(run cfg evs initialState = Inr s \<longrightarrow> length (inFlight u (requests s)) \<le> 1)
   \<and> (onCanvasClick cfg clickX clickY clock s = Inr s' \<and> inFlight u (requests s) \<noteq> []
        \<longrightarrow> filter (\<lambda>r. userIndex r = u) (requests s')
            = filter (\<lambda>r. userIndex r = u) (requests s))
   \<and> (run ANIM_CONFIG evs initialState = Inr s \<and> u < length (users (layout s))
        \<and> insideUser (users (layout s) ! u) clickX clickY \<and> inFlight u (requests s) \<noteq> []
        \<longrightarrow> onCanvasClick ANIM_CONFIG clickX clickY clock s = Inr s)"
proof -
  have i0: "oneInFlight (requests initialState)"
    by (simp add: initialState_def oneInFlight_def inFlight_def)
  have a0: "usersApart (users (layout initialState))"
    by (simp add: initialState_def usersApart_def)
  have "run cfg evs initialState = Inr s \<longrightarrow> length (inFlight u (requests s)) \<le> 1"
    using run_requests_invariant [OF oneInFlight_invariant _ i0, of cfg evs s]
    by (simp add: oneInFlight_def)
  moreover have "onCanvasClick cfg clickX clickY clock s = Inr s' \<and> inFlight u (requests s) \<noteq> []
        \<longrightarrow> filter (\<lambda>r. userIndex r = u) (requests s')
            = filter (\<lambda>r. userIndex r = u) (requests s)"
    using onCanvasClick_same_user by blast
  moreover have "run ANIM_CONFIG evs initialState = Inr s \<and> u < length (users (layout s))
        \<and> insideUser (users (layout s) ! u) clickX clickY \<and> inFlight u (requests s) \<noteq> []
        \<longrightarrow> onCanvasClick ANIM_CONFIG clickX clickY clock s = Inr s"
    using run_usersApart [OF _ a0, of evs s] onCanvasClick_blocked by blast
  ultimately show ?thesis by blast
qed

theorem one_request_in_flight_per_user_witness:
  "run ANIM_CONFIG [Start 800 420 0, Frame 0 0] initialState
     = Inr (projr (renderFrame ANIM_CONFIG 0 0 exStarted))
   \<and> inFlight 0 (requests (projr (renderFrame ANIM_CONFIG 0 0 exStarted))) \<noteq> []
   \<and> length (inFlight 0 (requests (projr (renderFrame ANIM_CONFIG 0 0 exStarted)))) \<le> 1
   \<and> insideUser (users (layout (projr (renderFrame ANIM_CONFIG 0 0 exStarted))) ! 0) 70 100
   \<and> onCanvasClick ANIM_CONFIG 70 100 50 (projr (renderFrame ANIM_CONFIG 0 0 exStarted))
       = Inr (projr (renderFrame ANIM_CONFIG 0 0 exStarted))"
proof -
  let ?s = "projr (renderFrame ANIM_CONFIG 0 0 exStarted)"
  have r: "run ANIM_CONFIG [Start 800 420 0, Frame 0 0] initialState = Inr ?s"
    using exStarted_reachable by (simp add: ex_defs eval_defs)
  have f: "inFlight 0 (requests ?s) \<noteq> []" "0 < length (inFlight 0 (requests ?s))"
    by (simp_all add: inFlight_def ex_defs eval_defs)
  have h: "0 < length (users (layout ?s))" "insideUser (users (layout ?s) ! 0) 70 100"
    by (simp_all add: ex_defs eval_defs)
  from one_request_in_flight_per_user
         [where cfg = ANIM_CONFIG and evs = "[Start 800 420 0, Frame 0 0]" and s = ?s
            and u = 0 and clickX = 70 and clickY = 100 and clock = 50 and s' = ?s]
       r f h
  show ?thesis by simp
qed

subsection \<open>Sequential batches\<close>

lemma setupRun_seqOrdered:
  assumes "sequential cfg" and "setupRun cfg clock s = Inr s'"
  shows "seqOrdered cfg (requests s')"
  using setupRun_requests [OF assms(2)] assms(1)
  by (simp add: seqOrdered_def)

lemma processRequest_waits:
  assumes st: "processRequest cfg now i (s, a) = Inr (s', a')" and i: "i < length (requests s)"
    and w: "req_state (requests s ! i) = Pending" "startAt (requests s ! i) = PosInfinity"
  shows "(req_state (requests s' ! i) = Pending \<and> startAt (requests s' ! i) = PosInfinity)
       \<or> predecessorDone (requests s) i"
proof (cases "startAt (requests s' ! i) = PosInfinity")
  case True
  have "req_state (requests s' ! i) = Pending"
  proof (rule ccontr)
    assume "req_state (requests s' ! i) \<noteq> Pending"
    from processRequest_started [OF st i w(1) this] True show False by simp
  qed
  with True show ?thesis by simp
next
  case False
  with processRequest_startAt [OF st i] w(2) show ?thesis by auto
qed

lemma predecessorDone_Suc:
  assumes "predecessorDone rs (Suc k)"
  shows "req_state (rs ! k) = Done"
  using assms by (auto simp: predecessorDone_def nth_opt_def split: if_splits)

lemma processRequest_seqOrdered:
  assumes st: "processRequest cfg now i (s, a) = Inr (s', a')" and i: "i < length (requests s)"
    and inv: "seqOrdered cfg (requests s)"
  shows "seqOrdered cfg (requests s')"
proof -
  have len: "length (requests s') = length (requests s)"
    by (rule processRequest_length [OF st])
  have oth: "\<And>k. k \<noteq> i \<Longrightarrow> requests s' ! k = requests s ! k"
    by (rule processRequest_other [OF st])
  have "\<forall>k. Suc k < usersCount cfg \<longrightarrow>
           (req_state (requests s' ! Suc k) = Pending
             \<and> startAt (requests s' ! Suc k) = PosInfinity)
           \<or> req_state (requests s' ! k) = Done"
  proof (intro allI impI)
    fix k assume k: "Suc k < usersCount cfg"
    from inv k consider
      (wait) "req_state (requests s ! Suc k) = Pending" "startAt (requests s ! Suc k) = PosInfinity"
        "req_state (requests s ! k) \<noteq> Done"
      | (finished) "req_state (requests s ! k) = Done"
      unfolding seqOrdered_def by blast
    then show "(req_state (requests s' ! Suc k) = Pending
             \<and> startAt (requests s' ! Suc k) = PosInfinity)
           \<or> req_state (requests s' ! k) = Done"
    proof cases
      case wait
      show ?thesis
      proof (cases "i = Suc k")
        case True
        from processRequest_waits [OF st i] wait(1,2) True
        have "(req_state (requests s' ! Suc k) = Pending
                \<and> startAt (requests s' ! Suc k) = PosInfinity)
              \<or> predecessorDone (requests s) (Suc k)"
          by simp
        with predecessorDone_Suc [of "requests s" k] wait(3) show ?thesis by blast
      next
        case False
        with oth [of "Suc k"] wait show ?thesis by simp
      qed
    next
      case finished
      have "req_state (requests s' ! k) = Done"
      proof (cases "i = k")
        case True
        with processRequest_Done [OF st] finished show ?thesis by simp
      next
        case False
        with oth [of k] finished show ?thesis by simp
      qed
      then show ?thesis by simp
    qed
  qed
  with inv len show ?thesis by (simp add: seqOrdered_def)
qed

lemma processRequests_seqOrdered:
  assumes "processRequests cfg now s = Inr (s', n)" and "seqOrdered cfg (requests s)"
  shows "seqOrdered cfg (requests s')"
proof -
  let ?P = "\<lambda>x. seqOrdered cfg (requests (fst x))
      \<and> length (requests (fst x)) = length (requests s)"
  have "?P (s', n)"
  proof (rule forEach_invariant [where P = ?P, OF assms(1) [unfolded processRequests_def]])
    show "?P (s, 0)" using assms(2) by simp
  next
    fix i x y
    assume i: "i \<in> set [0 ..< length (requests s)]" and p: "?P x"
      and st: "processRequest cfg now i x = Inr y"
    obtain sx ax sy ay where x: "x = (sx, ax)" and y: "y = (sy, ay)" by (cases x, cases y) auto
    from st x y have st': "processRequest cfg now i (sx, ax) = Inr (sy, ay)" by simp
    from i p x have il: "i < length (requests sx)" by simp
    from processRequest_seqOrdered [OF st' il] processRequest_length [OF st'] p x y
    show "?P y" by simp
  qed
  then show ?thesis by simp
qed

lemma clickUser_seqOrdered:
  assumes "clickUser cfg clickX clickY clock i s = Inr s'" and "seqOrdered cfg (requests s)"
  shows "seqOrdered cfg (requests s')"
proof -
  from clickUser_requests [OF assms(1)]
  consider "requests s' = requests s" | r where "requests s' = requests s @ [r]"
    by auto
  then show ?thesis
  proof cases
    case 1
    with assms(2) show ?thesis by simp
  next
    case 2
    with assms(2) show ?thesis
      by (auto simp: seqOrdered_def nth_append)
  qed
qed

lemma seqOrdered_invariant:
  assumes "sequential cfg"
  shows "requestInvariant cfg (seqOrdered cfg)"
  unfolding requestInvariant_def
  using setupRun_seqOrdered [OF assms] processRequests_seqOrdered clickUser_seqOrdered
  by blast

lemma start_seqOrdered:
  assumes "sequential cfg" and "start cfg rectWidth rectHeight clock s = Inr s'"
  shows "seqOrdered cfg (requests s')"
proof -
  from assms(2) obtain s1 s2 where "sizeCanvas cfg rectWidth rectHeight s = Inr s1"
    and s2: "setupRun cfg clock s1 = Inr s2" and sl: "startLoop cfg clock s2 = Inr s'"
    by (auto simp: start_def split: sum.splits)
  from startLoop_requests_invariant [OF seqOrdered_invariant [OF assms(1)] sl
      setupRun_seqOrdered [OF assms(1) s2]]
  show ?thesis .
qed

text \<open>
  Claim C3: in sequential mode, in every state reached after \<open>start()\<close>, request
  \<open>i+1\<close> of the batch has left \<open>pending\<close> only if request \<open>i\<close> is done; \<open>setupRun\<close>
  creates it pending with the start time \<open>Infinity\<close>, and that start time has been
  replaced only if request \<open>i\<close> is done.
\<close>

theorem sequential_batch_order:
  assumes "sequential cfg"
    and "run cfg (Start rectWidth rectHeight clock # evs) s0 = Inr s"
    and "Suc i < usersCount cfg"
  shows "Suc i < length (requests s)
       \<and> (req_state (requests s ! Suc i) \<noteq> Pending \<longrightarrow> req_state (requests s ! i) = Done)
       \<and> (startAt (requests s ! Suc i) \<noteq> PosInfinity \<longrightarrow> req_state (requests s ! i) = Done)
       \<and> (\<forall>c t t'. setupRun cfg c t = Inr t' \<longrightarrow>
             req_state (requests t' ! Suc i) = Pending
             \<and> startAt (requests t' ! Suc i) = PosInfinity)"
proof -
  from assms(2) obtain s1 where s1: "start cfg rectWidth rectHeight clock s0 = Inr s1"
    and rest: "run cfg evs s1 = Inr s"
    by (auto split: sum.splits)
  have "seqOrdered cfg (requests s)"
    by (rule run_requests_invariant [OF seqOrdered_invariant [OF assms(1)] rest
          start_seqOrdered [OF assms(1) s1]])
  moreover have "\<forall>c t t'. setupRun cfg c t = Inr t' \<longrightarrow>
             req_state (requests t' ! Suc i) = Pending
             \<and> startAt (requests t' ! Suc i) = PosInfinity"
    using setupRun_requests assms(1,3) by simp
  ultimately show ?thesis using assms(3) unfolding seqOrdered_def by auto
qed

lemma exFirstDone_reachable:
  "run ANIM_CONFIG (Start 800 420 0 # take 8 firstRun) initialState = Inr exFirstDone"
proof -
  have "run ANIM_CONFIG (take 8 firstRun) exStarted = Inr exFirstDone"
    by (simp add: firstRun_def exFirstDone_def ex_defs eval_defs)
  with exStarted_reachable show ?thesis by simp
qed

theorem sequential_batch_order_witness:
  "req_state (requests exFirstDone ! 0) = Done
   \<and> req_state (requests exFirstDone ! 1) = Traveling_to_edge
   \<and> req_state (requests exFirstDone ! 2) = Pending
   \<and> startAt (requests exFirstDone ! 2) = PosInfinity
   \<and> 1 < length (requests exFirstDone)"
proof -
  have q: "sequential ANIM_CONFIG" "Suc 0 < usersCount ANIM_CONFIG"
    "Suc 1 < usersCount ANIM_CONFIG"
    by (simp_all add: ANIM_CONFIG_def)
  have v: "req_state (requests exFirstDone ! 1) = Traveling_to_edge"
    "req_state (requests exFirstDone ! 1) \<noteq> Done"
    by (simp_all add: exFirstDone_def ex_defs)
  from sequential_batch_order [OF q(1) exFirstDone_reachable q(2)]
    sequential_batch_order [OF q(1) exFirstDone_reachable q(3)] v
  show ?thesis by (simp add: numeral_2_eq_2)
qed

subsection \<open>Requests created by a click\<close>










subsection \<open>A negative configured edge index\<close>

text \<open>
  Claim C5 (every assigned index lies in \<open>[0, edgesCount)\<close>, for every configured
  \<open>userEdgeMap\<close> value) against the code: \<open>Math.min(edgesCount - 1, map[i])\<close> caps a
  configured value from above only. With \<open>userEdgeMap = [-1, 1, 2, 2]\<close> and three
  edges, user 0 is assigned \<open>-1\<close>; no edge has that index, and \<open>start()\<close> raises a
  TypeError when it draws the path from that user.
\<close>

theorem assignedEdgeIndex_negative_value_kept:
  "edgesCount (ANIM_CONFIG\<lparr> userEdgeMap := Some [-1, 1, 2, 2] \<rparr>) = 3
   \<and> assignedEdgeIndex
         (users (layout (calculateLayoutPositions
            (ANIM_CONFIG\<lparr> userEdgeMap := Some [-1, 1, 2, 2] \<rparr>) initialState)) ! 0) = -1
   \<and> start (ANIM_CONFIG\<lparr> userEdgeMap := Some [-1, 1, 2, 2] \<rparr>) 800 420 0 initialState
       = Inl TypeError"
  by (simp add: eval_defs startLoop.simps)

subsection \<open>The replay timer\<close>

lemma exBeforeEnd_reachable: "run ANIM_CONFIG (butlast firstRun) exStarted = Inr exBeforeEnd"
  by (simp add: firstRun_def exBeforeEnd_def ex_defs eval_defs)

lemma exSecondDone_reachable: "run ANIM_CONFIG secondRun exWarm = Inr exSecondDone"
  by (simp add: secondRun_def exSecondDone_def ex_defs eval_defs startLoop.simps restart.simps)

lemma secondRun_warms_nothing: "\<not> warmedDuring ANIM_CONFIG secondRun exWarm"
  by (simp add: secondRun_def turnedWarm_def ex_defs eval_defs startLoop.simps restart.simps)

lemma endFrame_replayTimer:
  "replayTimer (endFrame n s) =
     (if n = 0 \<and> \<not> isFinished s \<and> runIndex s = 1 \<and> replayTimer s = None
         \<and> (list_ex cached (edgesState s) \<or> list_ex cached (regionalState s))
         \<and> requests s \<noteq> []
      then Some Handle else replayTimer s)"
  by (simp add: endFrame_def Let_def pauseLoop_def)

text \<open>
  Claim C6, as the code has it: a frame sets the replay timer exactly when it finds
  nothing active (no request and no invalidation was advanced), the animator was not
  finished yet, the run index is 1, no replay timer is pending, the request list is not
  empty and some edge or regional cache is warm at that moment; a frame of a run whose
  index is not 1 leaves the timer as it is. \<open>s1\<close> is the state in which the frame starts
  its work, after it has seeded a run where it has to.
\<close>

theorem replay_scheduled_when_caches_warm:
  assumes "(if requests s = [] \<and> \<not> isFinished s \<and> invalidations s = []
            then setupRun cfg clock s else Inr s) = Inr s1"
    and "processRequests cfg now s1 = Inr (s2, a)"
    and "processInvalidations cfg now s2 = Inr (s3, b)"
  shows "renderFrame cfg now clock s = Inr (endFrame (a + b) s3)
       \<and> ((replayTimer s1 = None \<and> replayTimer (endFrame (a + b) s3) = Some Handle)
           \<longleftrightarrow> (a + b = 0 \<and> \<not> isFinished s1 \<and> runIndex s1 = 1 \<and> replayTimer s1 = None
                \<and> requests s1 \<noteq> []
                \<and> (list_ex cached (edgesState s3) \<or> list_ex cached (regionalState s3))))
       \<and> (runIndex s1 \<noteq> 1 \<longrightarrow> replayTimer (endFrame (a + b) s3) = replayTimer s1)"
proof -
  from processRequests_control [OF assms(2)] processInvalidations_control [OF assms(3)]
  have c: "isFinished s3 = isFinished s1" "runIndex s3 = runIndex s1"
    "replayTimer s3 = replayTimer s1" "length (requests s3) = length (requests s1)"
    by (simp_all add: sameControl_def)
  from c(4) have r: "requests s3 = [] \<longleftrightarrow> requests s1 = []" by (metis length_0_conv)
  from assms have "renderFrame cfg now clock s = Inr (endFrame (a + b) s3)"
    by (simp add: renderFrame_def)
  with c(1-3) r show ?thesis
    by (auto simp: endFrame_replayTimer)
qed

theorem replay_scheduled_when_caches_warm_witness:
  "renderFrame ANIM_CONFIG 22016 0 exBeforeEnd = Inr exWarm
   \<and> replayTimer exBeforeEnd = None \<and> replayTimer exWarm = Some Handle
   \<and> runIndex exBeforeEnd = 1 \<and> \<not> isFinished exBeforeEnd \<and> requests exBeforeEnd \<noteq> []
   \<and> list_ex cached (edgesState exWarm)"
proof -
  have e: "endFrame (0 + 0) exBeforeEnd = exWarm"
    by (simp add: exBeforeEnd_def ex_defs eval_defs)
  have "(if requests exBeforeEnd = [] \<and> \<not> isFinished exBeforeEnd
            \<and> invalidations exBeforeEnd = []
         then setupRun ANIM_CONFIG 0 exBeforeEnd else Inr exBeforeEnd) = Inr exBeforeEnd"
    and "processRequests ANIM_CONFIG 22016 exBeforeEnd = Inr (exBeforeEnd, 0)"
    and "processInvalidations ANIM_CONFIG 22016 exBeforeEnd = Inr (exBeforeEnd, 0)"
    by (simp_all add: exBeforeEnd_def ex_defs eval_defs)
  from replay_scheduled_when_caches_warm [OF this] e
  show ?thesis by (simp add: exBeforeEnd_def ex_defs)
qed

text \<open>
  Claim C6 as stated fails where it asks that a cache entry became warm during the run.
  After the first run of the shipped configuration, \<open>restart()\<close> seeds a run whose index
  is 1 again, with every cache still warm: the four requests are edge hits, no \<open>cached\<close>
  flag goes from false to true in any of its frames, and the frame that finds nothing
  active sets the replay timer all the same.
\<close>

theorem replay_without_warming_counterexample:
  "run ANIM_CONFIG secondRun exWarm = Inr exSecondDone
   \<and> \<not> warmedDuring ANIM_CONFIG (secondRun @ [Frame 31416 0]) exWarm
   \<and> runIndex exSecondDone = 1 \<and> rafId exSecondDone = Some Handle
   \<and> replayTimer exSecondDone = None
   \<and> replayTimer (projr (step ANIM_CONFIG (Frame 31416 0) exSecondDone)) = Some Handle
   \<and> isFinished (projr (step ANIM_CONFIG (Frame 31416 0) exSecondDone))"
  by (simp add: secondRun_def exSecondDone_def turnedWarm_def ex_defs eval_defs
        startLoop.simps restart.simps)

subsection \<open>The durations of invalidation events\<close>

lemma durationsPositive_cong:
  "invalidations s' = invalidations s \<Longrightarrow> durationsPositive s' = durationsPositive s"
  by (simp add: durationsPositive_def)

lemma processInvalidation_written:
  assumes "processInvalidation cfg now i (s, a) = Inr (s', a')"
  shows "invalidations s' = invalidations s
       \<or> (\<exists>iv. invalidations s' = (invalidations s)[i := iv]
             \<and> (duration iv = duration (invalidations s ! i) \<or> duration iv = cacheStoreMs cfg))"
  using assms
  by (auto simp: processInvalidation_def Let_def
       split: if_splits option.splits invState.splits)

lemma processInvalidation_durations:
  assumes st: "processInvalidation cfg now i (s, a) = Inr (s', a')" and c: "0 < cacheStoreMs cfg"
    and p: "durationsPositive s" and i: "i < length (invalidations s)"
  shows "durationsPositive s'"
proof -
  from processInvalidation_written [OF st]
  consider "invalidations s' = invalidations s"
    | iv where "invalidations s' = (invalidations s)[i := iv]"
        "duration iv = duration (invalidations s ! i) \<or> duration iv = cacheStoreMs cfg"
    by blast
  then show ?thesis
  proof cases
    case 1
    with p show ?thesis by (simp add: durationsPositive_def)
  next
    case 2
    from p i have "0 < duration (invalidations s ! i)"
      by (simp add: durationsPositive_def list_all_length)
    with 2(2) c have d: "0 < duration iv" by auto
    have "set ((invalidations s)[i := iv]) \<subseteq> insert iv (set (invalidations s))"
      by (rule set_update_subset_insert)
    with p d 2(1) show ?thesis
      by (auto simp: durationsPositive_def list_all_iff)
  qed
qed

lemma processInvalidations_durations:
  assumes run: "processInvalidations cfg now s = Inr (s', n)" and c: "0 < cacheStoreMs cfg"
    and p: "durationsPositive s"
  shows "durationsPositive s'"
proof -
  from run obtain s1 where
    fe: "forEach (processInvalidation cfg now) [0 ..< length (invalidations s)] (s, 0)
           = Inr (s1, n)"
    and s': "s' = s1\<lparr> invalidations := filter (\<lambda>v. inv_state v \<noteq> Inv_done) (invalidations s1) \<rparr>"
    by (rule processInvalidations_unfold)
  let ?P = "\<lambda>x. durationsPositive (fst x)
      \<and> length (invalidations (fst x)) = length (invalidations s)"
  have "?P (s1, n)"
  proof (rule forEach_invariant [where P = ?P, OF fe])
    show "?P (s, 0)" using p by simp
  next
    fix i x y
    assume i: "i \<in> set [0 ..< length (invalidations s)]" and px: "?P x"
      and st: "processInvalidation cfg now i x = Inr y"
    from st have st': "processInvalidation cfg now i (fst x, snd x) = Inr (fst y, snd y)"
      by simp
    from i px have "i < length (invalidations (fst x))" by simp
    from processInvalidation_durations [OF st' c _ this] px
      processInvalidation_control [OF st']
    show "?P y" by simp
  qed
  then have "list_all (\<lambda>iv. 0 < duration iv) (invalidations s1)"
    by (simp add: durationsPositive_def)
  then show ?thesis
    by (simp add: s' durationsPositive_def list_all_iff)
qed

lemma restart_invalidations:
  assumes "restart cfg clock s = Inr s'"
  shows "invalidations s' = invalidations s"
  using assms
proof (rule restart_unfold)
  fix s1
  assume "setupRun cfg clock (s\<lparr> runIndex := 0, isFinished := False, replayTimer := None \<rparr>)
            = Inr s1"
    and "s' = s1 \<or> s' = s1\<lparr> isPlaying := True, rafId := Some Handle \<rparr>"
  with setupRun_fields [of cfg clock
      "s\<lparr> runIndex := 0, isFinished := False, replayTimer := None \<rparr>" s1]
  show ?thesis by auto
qed

lemma startLoop_invalidations:
  assumes "startLoop cfg clock s = Inr s'"
  shows "invalidations s' = invalidations s"
  using startLoop_cases [OF assms] restart_invalidations [of cfg clock s s']
  by auto

lemma renderFrame_durations:
  assumes run: "renderFrame cfg now clock s = Inr s'" and c: "0 < cacheStoreMs cfg"
    and p: "durationsPositive s"
  shows "durationsPositive s'"
  using run
proof (rule renderFrame_unfold)
  fix s1 s2 a s3 b
  assume seed: "(if requests s = [] \<and> \<not> isFinished s \<and> invalidations s = []
                 then setupRun cfg clock s else Inr s) = Inr s1"
    and rq: "processRequests cfg now s1 = Inr (s2, a)"
    and iv: "processInvalidations cfg now s2 = Inr (s3, b)"
    and s': "s' = endFrame (a + b) s3"
  from seed setupRun_fields [of cfg clock s s1] have "invalidations s1 = invalidations s"
    by (auto split: if_splits)
  with processRequests_control [OF rq] have "invalidations s2 = invalidations s" by simp
  with p have "durationsPositive s2" by (simp add: durationsPositive_def)
  from processInvalidations_durations [OF iv c this] s' endFrame_fields [of "a + b" s3]
  show ?thesis by (simp add: durationsPositive_def)
qed

lemma clearCache_durations:
  assumes run: "clearCache cfg now clock s = Inr s'" and c: "0 < cacheStoreMs cfg"
    and p: "durationsPositive s"
  shows "durationsPositive s'"
proof -
  let ?s1 = "s\<lparr> edgesState := map (\<lambda>e. e\<lparr> cached := False \<rparr>) (edgesState s),
                regionalState := map (\<lambda>r. r\<lparr> cached := False \<rparr>) (regionalState s),
                replayTimer := None, isFinished := True \<rparr>"
  from run have r: "renderFrame cfg now clock ?s1 = Inr s'"
    by (simp add: clearCache_def Let_def split: if_splits)
  from p have "durationsPositive ?s1" by (simp add: durationsPositive_def)
  from renderFrame_durations [OF r c this] show ?thesis .
qed

lemma invalidateAllCaches_durations:
  assumes run: "invalidateAllCaches cfg now s = Inr s'" and p: "durationsPositive s"
  shows "durationsPositive s'"
proof -
  let ?s1 = "s\<lparr> invalidations :=
                  invalidations s
                  @ invalidationsFor Regional now 800 (regionalState s)
                  @ invalidationsFor Edge now (800 + 400) (edgesState s) \<rparr>"
  have d: "durationsPositive ?s1" "durationsPositive (?s1\<lparr> isFinished := False \<rparr>)"
    using p by (auto simp: durationsPositive_def invalidationsFor_def list_all_iff)
  from run consider "s' = ?s1" | "startLoop cfg now (?s1\<lparr> isFinished := False \<rparr>) = Inr s'"
    by (auto simp: invalidateAllCaches_def Let_def split: if_splits)
  then show ?thesis
  proof cases
    case 1
    with d show ?thesis by simp
  next
    case 2
    from durationsPositive_cong [OF startLoop_invalidations [OF 2]] d show ?thesis by simp
  qed
qed

lemma step_durations:
  assumes st: "step cfg ev s = Inr s'" and c: "0 < cacheStoreMs cfg"
    and p: "durationsPositive s"
  shows "durationsPositive s'"
proof (cases ev)
  case (Start rw rh clock)
  with st obtain s1 s2 where "sizeCanvas cfg rw rh s = Inr s1" "setupRun cfg clock s1 = Inr s2"
    "startLoop cfg clock s2 = Inr s'"
    by (auto simp: start_def split: sum.splits)
  with sizeCanvas_fields [of cfg rw rh s s1] setupRun_fields [of cfg clock s1 s2]
    startLoop_invalidations [of cfg clock s2 s'] p
  show ?thesis by (simp add: durationsPositive_def)
next
  case (Frame now clock)
  with st renderFrame_durations [OF _ c p] show ?thesis by simp
next
  case (Play clock)
  with st durationsPositive_cong [OF startLoop_invalidations] p show ?thesis by simp
next
  case Pause
  with st have "pauseLoop s = s'" by simp
  with pauseLoop_sameCaches [of s] p show ?thesis by (auto simp: durationsPositive_def)
next
  case (Restart clock)
  with st durationsPositive_cong [OF restart_invalidations] p show ?thesis by simp
next
  case (ClearCache now clock)
  with st clearCache_durations [OF _ c p] show ?thesis by simp
next
  case (Invalidate now)
  with st invalidateAllCaches_durations [OF _ p] show ?thesis by simp
next
  case Destroy
  with st have "pauseLoop (s\<lparr> destroyed := True \<rparr>) = s'" by (simp add: destroy_def)
  with pauseLoop_sameCaches [of "s\<lparr> destroyed := True \<rparr>"] p show ?thesis
    by (auto simp: durationsPositive_def)
next
  case (CanvasClick x y clock)
  with st onCanvasClick_sameCaches [of cfg x y clock s s'] p show ?thesis
    by (simp add: durationsPositive_def)
next
  case (PlayPauseClick clock)
  with st have click: "onPlayPauseClick cfg clock s = Inr s'" by simp
  show ?thesis
  proof (cases "isPlaying s")
    case True
    with click have "pauseLoop s = s'" by (simp add: onPlayPauseClick_def)
    with pauseLoop_sameCaches [of s] p show ?thesis by (auto simp: durationsPositive_def)
  next
    case False
    with click have "startLoop cfg clock s = Inr s'" by (simp add: onPlayPauseClick_def)
    from durationsPositive_cong [OF startLoop_invalidations [OF this]] p show ?thesis by simp
  qed
next
  case (ClearCacheClick now clock)
  with st obtain s1 where c1: "clearCache cfg now clock s = Inr s1"
    and r: "restart cfg clock s1 = Inr s'"
    by (auto simp: onClearCacheClick_def split: sum.splits)
  from durationsPositive_cong [OF restart_invalidations [OF r]] clearCache_durations [OF c1 c p]
  show ?thesis by simp
next
  case (Resize rw rh now clock)
  with st obtain s1 where sz: "sizeCanvas cfg rw rh s = Inr s1"
    and r: "s' = s1 \<or> renderFrame cfg now clock s1 = Inr s'"
    by (auto simp: onResize_def split: sum.splits if_splits)
  from sizeCanvas_fields [OF sz] p have p1: "durationsPositive s1"
    by (simp add: durationsPositive_def)
  with r renderFrame_durations [OF _ c p1] show ?thesis by auto
next
  case (ReplayTimer clock)
  with st obtain s1 where "setupRun cfg clock s = Inr s1" "startLoop cfg clock s1 = Inr s'"
    by (auto simp: replayCallback_def split: sum.splits)
  with setupRun_fields [of cfg clock s s1] startLoop_invalidations [of cfg clock s1 s'] p
  show ?thesis by (simp add: durationsPositive_def)
qed

text \<open>
  In every state the animator reaches from its initial state, whatever is called, every
  invalidation event has a positive duration (the store time of the configuration being
  positive, as in the shipped one).
\<close>

lemma run_durationsPositive:
  assumes "run cfg evs s = Inr s'" and "0 < cacheStoreMs cfg" and "durationsPositive s"
  shows "durationsPositive s'"
  using assms
proof (induction evs arbitrary: s)
  case Nil
  then show ?case by simp
next
  case (Cons ev evs)
  from Cons.prems(1) obtain s1 where st: "step cfg ev s = Inr s1"
    and rest: "run cfg evs s1 = Inr s'"
    by (auto split: sum.splits)
  from Cons.IH [OF rest Cons.prems(2) step_durations [OF st Cons.prems(2,3)]]
  show ?case .
qed

lemma reachable_durations_positive:
  assumes "run ANIM_CONFIG evs initialState = Inr s"
  shows "list_all (\<lambda>iv. 0 < duration iv) (invalidations s)"
  using run_durationsPositive [OF assms, unfolded durationsPositive_def]
  by (simp add: ANIM_CONFIG_def initialState_def)

end
